theory Spec2Isabelle
  imports Main "HOL-Library.Word"
begin

unbundle bit_operations_syntax

section \<open>Data model\<close>

text \<open>
  The C types of the driver glue: \<open>u_int\<close> and \<open>uint32_t\<close> are 32-bit words,
  \<open>uint16_t\<close>/\<open>u16\<close> 16-bit words, \<open>uint64_t\<close>/\<open>u64\<close> (and \<open>unsigned long\<close> on the
  64-bit kernels the driver is built for) 64-bit words. Arithmetic on them wraps.
  Little-endian conversions (\<open>htole64\<close>, \<open>le16toh\<close>, \<open>le32toh\<close>) change the byte
  representation only and are the identity on values.
\<close>

type_synonym u_int = "32 word"
type_synonym u16 = "16 word"
type_synonym u64 = "64 word"

text \<open>\<open>enum txrx\<close>: the direction of a ring.\<close>

datatype txrx = NR_RX | NR_TX

text \<open>\<open>struct netmap_slot\<close>: one element of the user ring.\<close>

record netmap_slot =
  buf_idx :: "32 word"
  len :: u16
  flags :: u16
  ptr :: u64

text \<open>
  Modelled from the spec: the flag set of a slot, \<open>{REPORT, BUFFER_CHANGED, MORE_FRAGMENT}\<close>,
  as the three distinct bits of \<open>net/netmap.h\<close>.
\<close>

definition NS_BUF_CHANGED :: u16 where "NS_BUF_CHANGED = 0x0001"
definition NS_REPORT :: u16 where "NS_REPORT = 0x0002"
definition NS_MOREFRAG :: u16 where "NS_MOREFRAG = 0x0020"

text \<open>
  Modelled from the spec: the explicit force-update flag of a receive reconcile call
  (\<open>NAF_FORCE_READ\<close>) and the pending-interrupt bit of \<open>nr_kflags\<close> (\<open>NKR_PENDINTR\<close>),
  with their values in \<open>netmap_kern.h\<close>.
\<close>

definition NAF_FORCE_READ :: u_int where "NAF_FORCE_READ = 1"
definition NKR_PENDINTR :: u_int where "NKR_PENDINTR = 0x1"

text \<open>
  Modelled from the spec: the command and status bit positions of the NIC's documented
  descriptor format (the \<open>ice\<close> driver's header is not among the sources), and the
  granularity shift of the receive buffer size in the queue context.
\<close>

definition ICE_TXD_QW1_CMD_S :: nat where "ICE_TXD_QW1_CMD_S = 4"
definition ICE_TXD_QW1_TX_BUF_SZ_S :: nat where "ICE_TXD_QW1_TX_BUF_SZ_S = 34"
definition ICE_TX_DESC_CMD_EOP :: u64 where "ICE_TX_DESC_CMD_EOP = 0x1"
definition ICE_TX_DESC_CMD_RS :: u64 where "ICE_TX_DESC_CMD_RS = 0x2"
definition ICE_RX_FLEX_DESC_STATUS0_DD_S :: nat where "ICE_RX_FLEX_DESC_STATUS0_DD_S = 0"
definition ICE_RX_FLEX_DESC_STATUS0_EOF_S :: nat where "ICE_RX_FLEX_DESC_STATUS0_EOF_S = 1"
definition ICE_RLAN_CTX_DBUF_S :: nat where "ICE_RLAN_CTX_DBUF_S = 7"

text \<open>The error numbers returned (Linux \<open>errno\<close> values).\<close>

definition ENXIO :: int where "ENXIO = 6"
definition EINVAL :: int where "EINVAL = 22"

text \<open>
  \<open>struct ifnet\<close> (a Linux \<open>net_device\<close>): only what the reconcilers ask of it, the
  answers of \<open>netif_carrier_ok(ifp)\<close> and \<open>netif_running(ifp)\<close>.
\<close>

record ifnet =
  netif_carrier_ok :: bool
  netif_running :: bool

text \<open>
  \<open>struct netmap_adapter\<close>. The buffer helpers of \<open>netmap_kern.h\<close> are not among the
  sources and the spec only names what they do, so they are parameters of the adapter:
  \<open>PNMB(na, slot, &paddr)\<close> resolves a slot's buffer handle (its \<open>buf_idx\<close>) to its
  virtual address (the value returned) and its bus address (\<open>paddr\<close>);
  \<open>NETMAP_BUF_BASE(na)\<close> is the
  address of the reserved placeholder buffer; \<open>NETMAP_BUF_SIZE(na)\<close> is the buffer
  size; \<open>NM_CHECK_ADDR_LEN_OFF(na, len, offset)\<close> may rewrite the local \<open>len\<close>.
\<close>

record netmap_adapter =
  ifp :: ifnet
  PNMB :: "32 word \<Rightarrow> u64 \<times> u64"
  NETMAP_BUF_BASE :: u64
  NETMAP_BUF_SIZE :: u_int
  NM_CHECK_ADDR_LEN_OFF :: "u_int \<Rightarrow> u64 \<Rightarrow> u_int"

text \<open>
  \<open>struct netmap_kring\<close>, with the slot array of its \<open>struct netmap_ring\<close>
  (\<open>kring->ring->slot[]\<close>, indexed by a \<open>u_int\<close>). \<open>nm_get_offset(kring, slot)\<close> and
  \<open>PNMB_O(kring, slot, &paddr)\<close> are parameters like the helpers of the adapter.
\<close>

record netmap_kring =
  na :: netmap_adapter
  ring_slot :: "u_int \<Rightarrow> netmap_slot"
  nkr_num_slots :: u_int
  rhead :: u_int
  nr_hwcur :: u_int
  nr_hwtail :: u_int
  nkr_hwofs :: int
  nr_kflags :: u_int
  tx :: txrx
  hwbuf_len :: u64
  buf_align :: u64
  nm_get_offset :: "netmap_slot \<Rightarrow> u64"
  PNMB_O :: "netmap_slot \<Rightarrow> u64 \<times> u64"

text \<open>
  \<open>struct ice_tx_desc\<close> and the fields of \<open>union ice_32b_rx_flex_desc\<close> that the
  reconcilers touch: \<open>read.pkt_addr\<close>, \<open>wb.status_error0\<close> and \<open>wb.pkt_len\<close>. The two
  views of the union are kept as separate fields.
\<close>

record ice_tx_desc =
  buf_addr :: u64
  cmd_type_offset_bsz :: u64

record ice_rx_desc =
  pkt_addr :: u64
  status_error0 :: u16
  pkt_len :: u16

text \<open>
  \<open>struct ice_ring\<close>: the descriptor memory \<open>desc\<close> (a pointer, \<open>None\<close> when it is
  \<open>NULL\<close>; an array indexed by a \<open>u_int\<close>) and \<open>next_to_clean\<close>, a \<open>u16\<close> in the driver.
\<close>

record 'd ice_ring =
  desc :: "(u_int \<Rightarrow> 'd) option"
  next_to_clean :: u16

text \<open>
  What the reconcilers do to the outside, in order: the rate-limited log call
  \<open>nm_prlim\<close>, the buffer synchronisations \<open>netmap_sync_map_dev\<close> and
  \<open>netmap_sync_map_cpu\<close> (bus address, length, direction), the write barrier \<open>wmb\<close>
  and the write of the device's tail register \<open>writel(v, ring->tail)\<close>.
\<close>

datatype nm_event =
    Nm_prlim
  | Sync_map_dev u64 u_int txrx
  | Sync_map_cpu u64 u_int txrx
  | Wmb
  | Writel u_int

text \<open>
  The state a reconcile call works on: the kring, the NIC ring that
  \<open>NM_ICE_TX_RING(vsi, kring->ring_id)\<close> (or \<open>NM_ICE_RX_RING\<close>) yields (\<open>None\<close> when
  the pointer is \<open>NULL\<close>), the global tunable \<open>netmap_no_pendintr\<close>, and the trace
  of outside effects so far.
\<close>

record 'd nm_state =
  kring_of :: netmap_kring
  hw_ring :: "'d ice_ring option"
  netmap_no_pendintr :: int
  events :: "nm_event list"

text \<open>
  The result of a reconcile call: an \<open>int\<close> returned directly, or the tail call
  \<open>return netmap_ring_reinit(kring)\<close>, whose callee is not among the sources; the
  state paired with \<open>Netmap_ring_reinit\<close> is the state handed to it.
\<close>

datatype sync_ret = Ret int | Netmap_ring_reinit

section \<open>Index arithmetic on the ring\<close>

text \<open>
  Modelled from the spec: the successor and predecessor of an index on a circular ring
  whose last index is \<open>lim\<close> (\<open>nm_next\<close> and \<open>nm_prev\<close> of \<open>netmap_kern.h\<close>).
\<close>

definition nm_next :: "u_int \<Rightarrow> u_int \<Rightarrow> u_int" where
  "nm_next i lim = (if i = lim then 0 else i + 1)"

definition nm_prev :: "u_int \<Rightarrow> u_int \<Rightarrow> u_int" where
  "nm_prev i lim = (if i = 0 then lim else i - 1)"

text \<open>
  Modelled from the spec: the Index Translator. A position of one index space and the
  ring's fixed offset give the position in the other space, both modulo \<open>N\<close>:
  \<open>nm_i == (nic_i + kring->nkr_hwofs) % ring_size\<close>.
\<close>

definition netmap_idx_n2k :: "netmap_kring \<Rightarrow> u_int \<Rightarrow> u_int" where
  "netmap_idx_n2k kr idx =
     word_of_int ((uint idx + nkr_hwofs kr) mod uint (nkr_num_slots kr))"

definition netmap_idx_k2n :: "netmap_kring \<Rightarrow> u_int \<Rightarrow> u_int" where
  "netmap_idx_k2n kr idx =
     word_of_int ((uint idx - nkr_hwofs kr) mod uint (nkr_num_slots kr))"

text \<open>The index \<open>j\<close> steps after \<open>i\<close> on the ring: \<open>nm_next\<close> applied \<open>j\<close> times.\<close>

definition ring_adv :: "u_int \<Rightarrow> nat \<Rightarrow> u_int \<Rightarrow> u_int" where
  "ring_adv lim j i = ((\<lambda>x. nm_next x lim) ^^ j) i"

section \<open>Buffer-size configuration\<close>

definition ice_netmap_bufcfg :: "netmap_kring \<Rightarrow> u64 \<Rightarrow> int \<times> netmap_kring" where
  "ice_netmap_bufcfg kring0 target0 =
     (let kring = kring0\<lparr>buf_align := 0\<rparr> in
      if tx kring = NR_TX then (0, kring\<lparr>hwbuf_len := target0\<rparr>)
      else
        let incr = push_bit ICE_RLAN_CTX_DBUF_S (1 :: u64);
            target = target0 AND NOT (incr - 1)
        in if target < 1024 \<or> target > 16384 - incr then (EINVAL, kring)
           else (0, kring\<lparr>hwbuf_len := target\<rparr>))"

section \<open>The transmit reconciler\<close>

definition ice_netmap_read_hwtail :: "(u_int \<Rightarrow> ice_tx_desc) \<Rightarrow> u_int \<Rightarrow> u_int" where
  "ice_netmap_read_hwtail base nslots = ucast (buf_addr (base nslots))"

text \<open>The command bits of the descriptor of one slot (the local \<open>hw_flags\<close>).\<close>

definition tx_hw_flags :: "u16 \<Rightarrow> u_int \<Rightarrow> u_int \<Rightarrow> u64" where
  "tx_hw_flags fl nic_i report_frequency =
     (if fl AND NS_MOREFRAG = 0 then
        push_bit ICE_TXD_QW1_CMD_S ICE_TX_DESC_CMD_EOP OR
        (if fl AND NS_REPORT \<noteq> 0 \<or> nic_i = 0 \<or> nic_i = report_frequency
         then push_bit ICE_TXD_QW1_CMD_S ICE_TX_DESC_CMD_RS else 0)
      else 0)"

text \<open>The body of the send loop, for the slot \<open>nm_i\<close> and the descriptor \<open>nic_i\<close>.\<close>

definition tx_send_slot ::
  "u_int \<Rightarrow> u_int \<Rightarrow> u_int \<Rightarrow> netmap_kring \<Rightarrow> (u_int \<Rightarrow> ice_tx_desc) \<Rightarrow> nm_event list
   \<Rightarrow> netmap_kring \<times> (u_int \<Rightarrow> ice_tx_desc) \<times> nm_event list" where
  "tx_send_slot report_frequency nm_i nic_i kring d ev =
     (let slot = ring_slot kring nm_i;
          len0 = (ucast (len slot) :: u_int);
          offset = nm_get_offset kring slot;
          paddr = snd (PNMB (na kring) (buf_idx slot));
          len1 = NM_CHECK_ADDR_LEN_OFF (na kring) len0 offset;
          hw_flags = tx_hw_flags (flags slot) nic_i report_frequency;
          slot' = slot\<lparr>flags := flags slot AND NOT (NS_REPORT OR NS_BUF_CHANGED OR NS_MOREFRAG)\<rparr>;
          curr_d = \<lparr>buf_addr = paddr + offset,
                  cmd_type_offset_bsz =
                    push_bit ICE_TXD_QW1_TX_BUF_SZ_S (ucast len1 :: u64) OR hw_flags\<rparr>
      in (kring\<lparr>ring_slot := (ring_slot kring)(nm_i := slot')\<rparr>,
          d(nic_i := curr_d),
          ev @ [Sync_map_dev paddr len1 NR_TX]))"

text \<open>
  \<open>for (n = 0; nm_i != head; n++)\<close>: the send loop; it yields the final \<open>nic_i\<close>.
  The counter \<open>n\<close> is not read by the transmit side. A loop that never reaches
  \<open>head\<close> has no result (\<open>None\<close>).
\<close>

partial_function (option) tx_send_loop ::
  "u_int \<Rightarrow> u_int \<Rightarrow> u_int \<Rightarrow> u_int \<Rightarrow> u_int \<Rightarrow> netmap_kring \<Rightarrow> (u_int \<Rightarrow> ice_tx_desc)
   \<Rightarrow> nm_event list
   \<Rightarrow> (u_int \<times> netmap_kring \<times> (u_int \<Rightarrow> ice_tx_desc) \<times> nm_event list) option" where
  "tx_send_loop lim head report_frequency nm_i nic_i kring d ev =
     (if nm_i \<noteq> head then
        (case tx_send_slot report_frequency nm_i nic_i kring d ev of
           (kring', d', ev') \<Rightarrow>
             tx_send_loop lim head report_frequency (nm_next nm_i lim) (nm_next nic_i lim)
               kring' d' ev')
      else Some (nic_i, kring, d, ev))"

declare tx_send_loop.simps [code]

text \<open>First part of \<open>ice_netmap_txsync\<close>: process new packets to send.\<close>

definition tx_send ::
  "netmap_kring \<Rightarrow> (u_int \<Rightarrow> ice_tx_desc) \<Rightarrow> nm_event list
   \<Rightarrow> (netmap_kring \<times> (u_int \<Rightarrow> ice_tx_desc) \<times> nm_event list) option" where
  "tx_send kring d ev =
     (let lim = nkr_num_slots kring - 1;
          head = rhead kring;
          report_frequency = drop_bit 1 (nkr_num_slots kring);
          nm_i = nr_hwcur kring
      in if nm_i \<noteq> head then
           (case tx_send_loop lim head report_frequency nm_i (netmap_idx_k2n kring nm_i)
                   kring d ev of
              None \<Rightarrow> None
            | Some (nic_i, kring', d', ev') \<Rightarrow>
                Some (kring'\<lparr>nr_hwcur := head\<rparr>, d', ev' @ [Wmb, Writel nic_i]))
         else Some (kring, d, ev))"

text \<open>
  \<open>for ( ; tosync != nm_i; tosync = nm_next(tosync, lim))\<close>: the buffers returned to
  userspace are synchronised for the CPU; only the trace changes.
\<close>

partial_function (option) tx_sync_loop ::
  "u_int \<Rightarrow> u_int \<Rightarrow> netmap_kring \<Rightarrow> u_int \<Rightarrow> nm_event list \<Rightarrow> nm_event list option" where
  "tx_sync_loop lim nm_i kring tosync ev =
     (if tosync \<noteq> nm_i then
        (let slot = ring_slot kring tosync;
             paddr = snd (PNMB_O kring slot)
         in tx_sync_loop lim nm_i kring (nm_next tosync lim)
              (ev @ [Sync_map_cpu paddr (ucast (len slot)) NR_TX]))
      else Some ev)"

declare tx_sync_loop.simps [code]

text \<open>Second part of \<open>ice_netmap_txsync\<close>: reclaim buffers for completed transmissions.\<close>

definition tx_reclaim ::
  "netmap_kring \<Rightarrow> (u_int \<Rightarrow> ice_tx_desc) \<Rightarrow> u16 \<Rightarrow> nm_event list
   \<Rightarrow> (netmap_kring \<times> u16 \<times> nm_event list) option" where
  "tx_reclaim kring d ntc ev =
     (let lim = nkr_num_slots kring - 1;
          nic_i = ice_netmap_read_hwtail d (nkr_num_slots kring)
      in if nic_i \<noteq> ucast ntc then
           (let nm_i = netmap_idx_n2k kring nic_i in
            case tx_sync_loop lim nm_i kring (nm_next (nr_hwtail kring) lim) ev of
              None \<Rightarrow> None
            | Some ev' \<Rightarrow> Some (kring\<lparr>nr_hwtail := nm_prev nm_i lim\<rparr>, ucast nic_i, ev'))
         else Some (kring, ntc, ev))"

definition ice_netmap_txsync ::
  "ice_tx_desc nm_state \<Rightarrow> u_int \<Rightarrow> (sync_ret \<times> ice_tx_desc nm_state) option" where
  "ice_netmap_txsync s flgs =
     (if \<not> netif_carrier_ok (ifp (na (kring_of s))) then Some (Ret 0, s)
      else
        (case hw_ring s of
           None \<Rightarrow> Some (Ret ENXIO, s\<lparr>events := events s @ [Nm_prlim]\<rparr>)
         | Some txr \<Rightarrow>
            (case desc txr of
               None \<Rightarrow> Some (Ret ENXIO, s\<lparr>events := events s @ [Nm_prlim]\<rparr>)
             | Some d \<Rightarrow>
                (case tx_send (kring_of s) d (events s) of
                   None \<Rightarrow> None
                 | Some (kring1, d1, ev1) \<Rightarrow>
                    (case tx_reclaim kring1 d1 (next_to_clean txr) ev1 of
                       None \<Rightarrow> None
                     | Some (kring2, ntc2, ev2) \<Rightarrow>
                         Some (Ret 0,
                               s\<lparr>kring_of := kring2,
                                 hw_ring := Some (txr\<lparr>desc := Some d1, next_to_clean := ntc2\<rparr>),
                                 events := ev2\<rparr>))))))"

section \<open>The receive reconciler\<close>

text \<open>
  The body of the import loop after the completion test: the slot \<open>nm_i\<close> takes the
  length of the descriptor \<open>nic_i\<close> and its flags; the result says whether the
  descriptor ends a frame (the local \<open>complete\<close>).
\<close>

definition rx_import_slot ::
  "u_int \<Rightarrow> ice_rx_desc \<Rightarrow> netmap_kring \<Rightarrow> nm_event list
   \<Rightarrow> bool \<times> netmap_kring \<times> nm_event list" where
  "rx_import_slot nm_i curr_d kring ev =
     (let staterr = status_error0 curr_d;
          slot = (ring_slot kring nm_i)\<lparr>len := pkt_len curr_d\<rparr>;
          eof_clear = (staterr AND push_bit ICE_RX_FLEX_DESC_STATUS0_EOF_S 1 = 0);
          slot_flags = (if eof_clear then NS_MOREFRAG else 0);
          slot' = slot\<lparr>flags := slot_flags\<rparr>;
          paddr = snd (PNMB_O kring slot')
      in (\<not> eof_clear,
          kring\<lparr>ring_slot := (ring_slot kring)(nm_i := slot')\<rparr>,
          ev @ [Sync_map_cpu paddr (ucast (len slot')) NR_RX]))"

text \<open>
  \<open>for (n = 0; ; n++)\<close>: the import loop, left by \<open>break\<close> at the first descriptor
  whose DD bit is clear. It yields the final \<open>n\<close>, \<open>nic_i\<close> and \<open>ntail\<close>. On a ring
  whose descriptors all have DD set it never ends (\<open>None\<close>).
\<close>

partial_function (option) rx_import_loop ::
  "u_int \<Rightarrow> (u_int \<Rightarrow> ice_rx_desc) \<Rightarrow> u_int \<Rightarrow> u_int \<Rightarrow> u_int \<Rightarrow> u_int \<Rightarrow> bool
   \<Rightarrow> netmap_kring \<Rightarrow> nm_event list
   \<Rightarrow> (u_int \<times> u_int \<times> u_int \<times> netmap_kring \<times> nm_event list) option" where
  "rx_import_loop lim d n nm_i nic_i ntail complete kring ev =
     (let curr_d = d nic_i;
          staterr = status_error0 curr_d;
          ntail' = (if complete then nm_i else ntail)
      in if staterr AND push_bit ICE_RX_FLEX_DESC_STATUS0_DD_S 1 = 0
         then Some (n, nic_i, ntail', kring, ev)
         else
           (case rx_import_slot nm_i curr_d kring ev of
              (complete', kring', ev') \<Rightarrow>
                rx_import_loop lim d (n + 1) (nm_next nm_i lim) (nm_next nic_i lim) ntail'
                  complete' kring' ev'))"

declare rx_import_loop.simps [code]

text \<open>
  First part of \<open>ice_netmap_rxsync\<close>: import newly received packets. The block is
  entered under \<open>netmap_no_pendintr || force_update\<close>.
\<close>

definition rx_import ::
  "netmap_kring \<Rightarrow> (u_int \<Rightarrow> ice_rx_desc) \<Rightarrow> u16 \<Rightarrow> nm_event list
   \<Rightarrow> (netmap_kring \<times> u16 \<times> nm_event list) option" where
  "rx_import kring d ntc ev =
     (let lim = nkr_num_slots kring - 1;
          nic_i = (ucast ntc :: u_int);
          nm_i = netmap_idx_n2k kring nic_i
      in case rx_import_loop lim d 0 nm_i nic_i (lim + 1) False kring ev of
           None \<Rightarrow> None
         | Some (n, nic_i', ntail, kring', ev') \<Rightarrow>
             (let (kring'', ntc') =
                    (if n \<noteq> 0 then
                       (if ntail \<le> lim then kring'\<lparr>nr_hwtail := ntail\<rparr> else kring',
                        ucast nic_i')
                     else (kring', ntc))
              in Some (kring''\<lparr>nr_kflags := nr_kflags kring'' AND NOT NKR_PENDINTR\<rparr>,
                       ntc', ev')))"

text \<open>How the refill loop is left: by \<open>goto ring_reset\<close>, or at \<open>head\<close> with the final \<open>nic_i\<close>.\<close>

datatype refill_exit = Ring_reset | Refilled u_int

text \<open>The body of the refill loop after the bad-buffer test.\<close>

definition rx_refill_slot ::
  "u_int \<Rightarrow> u_int \<Rightarrow> netmap_kring \<Rightarrow> (u_int \<Rightarrow> ice_rx_desc) \<Rightarrow> nm_event list
   \<Rightarrow> netmap_kring \<times> (u_int \<Rightarrow> ice_rx_desc) \<times> nm_event list" where
  "rx_refill_slot nm_i nic_i kring d ev =
     (let slot = ring_slot kring nm_i;
          paddr = snd (PNMB (na kring) (buf_idx slot));
          offset = nm_get_offset kring slot;
          slot' = (if flags slot AND NS_BUF_CHANGED \<noteq> 0
                   then slot\<lparr>flags := flags slot AND NOT NS_BUF_CHANGED\<rparr> else slot);
          curr_d = (d nic_i)\<lparr>pkt_addr := paddr + offset, status_error0 := 0\<rparr>
      in (kring\<lparr>ring_slot := (ring_slot kring)(nm_i := slot')\<rparr>,
          d(nic_i := curr_d),
          ev @ [Sync_map_dev paddr (NETMAP_BUF_SIZE (na kring)) NR_RX]))"

partial_function (option) rx_refill_loop ::
  "u_int \<Rightarrow> u_int \<Rightarrow> u_int \<Rightarrow> u_int \<Rightarrow> netmap_kring \<Rightarrow> (u_int \<Rightarrow> ice_rx_desc)
   \<Rightarrow> nm_event list
   \<Rightarrow> (refill_exit \<times> netmap_kring \<times> (u_int \<Rightarrow> ice_rx_desc) \<times> nm_event list) option" where
  "rx_refill_loop lim head nm_i nic_i kring d ev =
     (if nm_i \<noteq> head then
        (if fst (PNMB (na kring) (buf_idx (ring_slot kring nm_i))) = NETMAP_BUF_BASE (na kring)
         then Some (Ring_reset, kring, d, ev)
         else
           (case rx_refill_slot nm_i nic_i kring d ev of
              (kring', d', ev') \<Rightarrow>
                rx_refill_loop lim head (nm_next nm_i lim) (nm_next nic_i lim) kring' d' ev'))
      else Some (Refilled nic_i, kring, d, ev))"

declare rx_refill_loop.simps [code]

text \<open>
  Second part of \<open>ice_netmap_rxsync\<close>: skip past packets that userspace has released.
\<close>

definition rx_refill ::
  "netmap_kring \<Rightarrow> (u_int \<Rightarrow> ice_rx_desc) \<Rightarrow> nm_event list
   \<Rightarrow> (sync_ret \<times> netmap_kring \<times> (u_int \<Rightarrow> ice_rx_desc) \<times> nm_event list) option" where
  "rx_refill kring d ev =
     (let lim = nkr_num_slots kring - 1;
          head = rhead kring;
          nm_i = nr_hwcur kring
      in if nm_i \<noteq> head then
           (case rx_refill_loop lim head nm_i (netmap_idx_k2n kring nm_i) kring d ev of
              None \<Rightarrow> None
            | Some (Ring_reset, kring', d', ev') \<Rightarrow> Some (Netmap_ring_reinit, kring', d', ev')
            | Some (Refilled nic_i, kring', d', ev') \<Rightarrow>
                Some (Ret 0, kring'\<lparr>nr_hwcur := head\<rparr>, d',
                      ev' @ [Wmb, Writel (nm_prev nic_i lim)]))
         else Some (Ret 0, kring, d, ev))"

definition ice_netmap_rxsync ::
  "ice_rx_desc nm_state \<Rightarrow> u_int \<Rightarrow> (sync_ret \<times> ice_rx_desc nm_state) option" where
  "ice_netmap_rxsync s flgs =
     (let lim = nkr_num_slots (kring_of s) - 1;
          head = rhead (kring_of s);
          force_update = (flgs AND NAF_FORCE_READ \<noteq> 0 \<or>
                          nr_kflags (kring_of s) AND NKR_PENDINTR \<noteq> 0)
      in if \<not> netif_running (ifp (na (kring_of s))) then Some (Ret 0, s)
         else
           (case hw_ring s of
              None \<Rightarrow> Some (Ret ENXIO, s\<lparr>events := events s @ [Nm_prlim]\<rparr>)
            | Some rxr \<Rightarrow>
               (case desc rxr of
                  None \<Rightarrow> Some (Ret ENXIO, s\<lparr>events := events s @ [Nm_prlim]\<rparr>)
                | Some d \<Rightarrow>
                   if head > lim then Some (Netmap_ring_reinit, s)
                   else
                     (case (if netmap_no_pendintr s \<noteq> 0 \<or> force_update
                            then rx_import (kring_of s) d (next_to_clean rxr) (events s)
                            else Some (kring_of s, next_to_clean rxr, events s)) of
                        None \<Rightarrow> None
                      | Some (kring1, ntc1, ev1) \<Rightarrow>
                         (case rx_refill kring1 d ev1 of
                            None \<Rightarrow> None
                          | Some (r, kring2, d2, ev2) \<Rightarrow>
                              Some (r,
                                    s\<lparr>kring_of := kring2,
                                      hw_ring := Some (rxr\<lparr>desc := Some d2, next_to_clean := ntc1\<rparr>),
                                      events := ev2\<rparr>))))))"

section \<open>Auxiliary notions of the statements\<close>

text \<open>
  \<open>!txr || !txr->desc\<close>: the NIC ring object is absent or its descriptor memory is
  unallocated.
\<close>

definition ring_missing :: "'d nm_state \<Rightarrow> bool" where
  "ring_missing s = (case hw_ring s of None \<Rightarrow> True | Some r \<Rightarrow> desc r = None)"

definition tx_desc_rs :: "ice_tx_desc \<Rightarrow> bool" where
  "tx_desc_rs dsc =
     (cmd_type_offset_bsz dsc AND push_bit ICE_TXD_QW1_CMD_S ICE_TX_DESC_CMD_RS \<noteq> 0)"

definition tx_desc_eop :: "ice_tx_desc \<Rightarrow> bool" where
  "tx_desc_eop dsc =
     (cmd_type_offset_bsz dsc AND push_bit ICE_TXD_QW1_CMD_S ICE_TX_DESC_CMD_EOP \<noteq> 0)"

definition is_sync_cpu :: "nm_event \<Rightarrow> bool" where
  "is_sync_cpu e = (case e of Sync_map_cpu _ _ _ \<Rightarrow> True | _ \<Rightarrow> False)"

text \<open>What the send loop leaves behind, as an invariant of its \<open>j\<close>-th iteration.\<close>

definition tx_send_inv ::
  "u_int \<Rightarrow> u_int \<Rightarrow> nat \<Rightarrow> u_int \<Rightarrow> u_int \<Rightarrow> netmap_kring \<Rightarrow> (u_int \<Rightarrow> ice_tx_desc)
   \<Rightarrow> nm_event list \<Rightarrow> nat \<Rightarrow> netmap_kring \<Rightarrow> (u_int \<Rightarrow> ice_tx_desc) \<Rightarrow> nm_event list \<Rightarrow> bool"
  where
  "tx_send_inv lim rf m nm0 nic0 k0 d0 ev0 j k d ev \<longleftrightarrow>
     (\<forall>j'<j.
        (tx_desc_rs (d (ring_adv lim j' nic0)) \<longleftrightarrow>
           flags (ring_slot k0 (ring_adv lim j' nm0)) AND NS_MOREFRAG = 0 \<and>
           (flags (ring_slot k0 (ring_adv lim j' nm0)) AND NS_REPORT \<noteq> 0 \<or>
            ring_adv lim j' nic0 = 0 \<or> ring_adv lim j' nic0 = rf)) \<and>
        (tx_desc_eop (d (ring_adv lim j' nic0)) \<longleftrightarrow>
           flags (ring_slot k0 (ring_adv lim j' nm0)) AND NS_MOREFRAG = 0)) \<and>
     (\<forall>j'. j \<le> j' \<longrightarrow> j' < m \<longrightarrow>
        ring_slot k (ring_adv lim j' nm0) = ring_slot k0 (ring_adv lim j' nm0)) \<and>
     (\<forall>x. lim < x \<longrightarrow> d x = d0 x) \<and>
     nr_hwtail k = nr_hwtail k0 \<and> nkr_num_slots k = nkr_num_slots k0 \<and>
     nkr_hwofs k = nkr_hwofs k0 \<and> rhead k = rhead k0 \<and>
     filter is_sync_cpu ev = filter is_sync_cpu ev0"

definition ring_present :: "'d nm_state \<Rightarrow> 'd ice_ring \<Rightarrow> (u_int \<Rightarrow> 'd) \<Rightarrow> bool" where
  "ring_present s r d \<longleftrightarrow> hw_ring s = Some r \<and> desc r = Some d"

section \<open>Example rings\<close>

text \<open>
  A ring pair of \<open>N = 8\<close> slots with offset 0, buffers of 2048 bytes, buffer 0 the
  placeholder, and slot \<open>i\<close> holding buffer \<open>i + 2\<close>; the theorems below are instantiated
  on it.
\<close>

definition ex_na :: netmap_adapter where
  "ex_na = \<lparr>ifp = \<lparr>netif_carrier_ok = True, netif_running = True\<rparr>,
            PNMB = (\<lambda>i. (push_bit 11 (ucast i), 0x100000 + push_bit 11 (ucast i))),
            NETMAP_BUF_BASE = 0,
            NETMAP_BUF_SIZE = 2048,
            NM_CHECK_ADDR_LEN_OFF = (\<lambda>l off. if 2048 < ucast l + off then 2048 - ucast off else l)\<rparr>"

definition ex_kring :: netmap_kring where
  "ex_kring = \<lparr>na = ex_na,
     ring_slot = (\<lambda>i. \<lparr>buf_idx = i + 2, len = 60, flags = 0, ptr = 0\<rparr>),
     nkr_num_slots = 8, rhead = 0, nr_hwcur = 0, nr_hwtail = 0, nkr_hwofs = 0, nr_kflags = 0,
     tx = NR_RX, hwbuf_len = 2048, buf_align = 64,
     nm_get_offset = (\<lambda>sl. 0),
     PNMB_O = (\<lambda>sl. (push_bit 11 (ucast (buf_idx sl)), 0x100000 + push_bit 11 (ucast (buf_idx sl))))\<rparr>"

definition ex_down :: "netmap_kring \<Rightarrow> netmap_kring" where
  "ex_down k = k\<lparr>na := (na k)\<lparr>ifp := \<lparr>netif_carrier_ok = False, netif_running = False\<rparr>\<rparr>\<rparr>"

definition ex_tx :: "ice_tx_desc nm_state" where
  "ex_tx = \<lparr>kring_of = ex_kring\<lparr>tx := NR_TX, nr_hwtail := 7\<rparr>,
     hw_ring = Some \<lparr>desc = Some (\<lambda>i. \<lparr>buf_addr = 0, cmd_type_offset_bsz = 0\<rparr>), next_to_clean = 0\<rparr>,
     netmap_no_pendintr = 1, events = []\<rparr>"

definition ex_rx :: "ice_rx_desc nm_state" where
  "ex_rx = \<lparr>kring_of = ex_kring,
     hw_ring = Some \<lparr>desc = Some (\<lambda>i. \<lparr>pkt_addr = 0, status_error0 = 0, pkt_len = 0\<rparr>), next_to_clean = 0\<rparr>,
     netmap_no_pendintr = 1, events = []\<rparr>"

definition set_rhead :: "u_int \<Rightarrow> 'd nm_state \<Rightarrow> 'd nm_state" where
  "set_rhead h s = s\<lparr>kring_of := (kring_of s)\<lparr>rhead := h\<rparr>\<rparr>"

definition the_desc :: "'d nm_state \<Rightarrow> u_int \<Rightarrow> 'd" where
  "the_desc s = the (desc (the (hw_ring s)))"

definition ex_txr :: "ice_tx_desc ice_ring" where
  "ex_txr = \<lparr>desc = Some (\<lambda>i. \<lparr>buf_addr = 0, cmd_type_offset_bsz = 0\<rparr>), next_to_clean = 0\<rparr>"

definition ex_txr_done :: "ice_tx_desc ice_ring" where
  "ex_txr_done =
     \<lparr>desc = Some ((\<lambda>i. \<lparr>buf_addr = 0, cmd_type_offset_bsz = 0\<rparr>)
                      (8 := \<lparr>buf_addr = 3, cmd_type_offset_bsz = 0\<rparr>)),
      next_to_clean = 0\<rparr>"

definition ex_tx_done :: "ice_tx_desc nm_state" where
  "ex_tx_done = set_rhead 4 (ex_tx\<lparr>hw_ring := Some ex_txr_done\<rparr>)"

definition ex_tx_frag :: "ice_tx_desc nm_state" where
  "ex_tx_frag =
     ex_tx\<lparr>kring_of := (kring_of ex_tx)
       \<lparr>rhead := 2,
        ring_slot := (ring_slot (kring_of ex_tx))
          (0 := \<lparr>buf_idx = 2, len = 1500, flags = NS_MOREFRAG OR NS_REPORT, ptr = 0\<rparr>)\<rparr>\<rparr>"

section \<open>Ring arithmetic\<close>

lemma unat_inc_less: 
  fixes i lim :: "'a::len word"
  assumes "i < lim" shows "unat (i + 1) = Suc (unat i)"
proof -
  have "unat i < unat lim" using assms by (simp add: word_less_nat_alt)
  moreover have "unat lim < 2 ^ LENGTH('a)" by (rule unsigned_less)
  ultimately have "unat i + 1 < 2 ^ LENGTH('a)" by linarith
  then show ?thesis by (simp add: unat_word_ariths)
qed

lemma unat_nm_next: 
  assumes "i \<le> lim" shows "unat (nm_next i lim) = (unat i + 1) mod (unat lim + 1)"
proof (cases "i = lim")
  case True
  then show ?thesis by (simp add: nm_next_def)
next
  case False
  with assms have lt: "i < lim" by simp
  then have "unat i < unat lim" by (simp add: word_less_nat_alt)
  with unat_inc_less[OF lt] False show ?thesis by (simp add: nm_next_def)
qed

lemma nm_next_le: assumes "i \<le> lim" shows "nm_next i lim \<le> lim"
proof -
  have "unat (nm_next i lim) < unat lim + 1"
    unfolding unat_nm_next[OF assms] by (rule mod_less_divisor) simp
  then show ?thesis by (simp add: word_le_nat_alt)
qed

lemma ring_adv_0 [simp]: "ring_adv lim 0 i = i"
  by (simp add: ring_adv_def)

lemma ring_adv_Suc: "ring_adv lim (Suc j) i = nm_next (ring_adv lim j i) lim"
  by (simp add: ring_adv_def)

lemma ring_adv_Suc2: "ring_adv lim (Suc j) i = ring_adv lim j (nm_next i lim)"
  by (simp only: ring_adv_def funpow_Suc_right o_apply)

lemma ring_adv_le: "i \<le> lim \<Longrightarrow> ring_adv lim j i \<le> lim"
  by (induction j) (simp_all add: ring_adv_Suc nm_next_le)

lemma unat_ring_adv: "i \<le> lim \<Longrightarrow> unat (ring_adv lim j i) = (unat i + j) mod (unat lim + 1)"
proof (induction j)
  case 0
  then have "unat i < unat lim + 1" by (simp add: word_le_nat_alt)
  then show ?case by simp
next
  case (Suc j)
  have "unat (ring_adv lim (Suc j) i) = (unat (ring_adv lim j i) + 1) mod (unat lim + 1)"
    by (simp add: ring_adv_Suc unat_nm_next ring_adv_le Suc.prems)
  also have "\<dots> = ((unat i + j) mod (unat lim + 1) + 1) mod (unat lim + 1)"
    by (simp add: Suc)
  also have "\<dots> = (unat i + Suc j) mod (unat lim + 1)"
    by (simp add: mod_Suc_eq)
  finally show ?case .
qed

lemma mod_eq_dvd_nat_aux:
  fixes a :: nat
  shows "(a + j1) mod M = (a + j2) mod M \<Longrightarrow> j1 < j2 \<Longrightarrow> M dvd (j2 - j1)"
  by (metis add_diff_cancel_left add_le_cancel_left mod_eq_dvd_iff_nat nat_less_le)

lemma ring_adv_neq:
  assumes "i \<le> lim" and "j1 < j2" and "j2 \<le> j1 + unat lim"
  shows "ring_adv lim j1 i \<noteq> ring_adv lim j2 i"
proof
  assume "ring_adv lim j1 i = ring_adv lim j2 i"
  then have "unat (ring_adv lim j1 i) = unat (ring_adv lim j2 i)" by simp
  then have "(unat i + j1) mod (unat lim + 1) = (unat i + j2) mod (unat lim + 1)"
    by (simp only: unat_ring_adv[OF assms(1)])
  then have "(unat lim + 1) dvd (j2 - j1)" using assms(2)
    by (rule mod_eq_dvd_nat_aux)
  moreover have "0 < j2 - j1" "j2 - j1 < unat lim + 1" using assms by auto
  ultimately show False by (meson dvd_imp_le not_less)
qed

lemma ring_reach:
  assumes "i \<le> lim" and "h \<le> lim"
  shows "\<exists>m\<le>unat lim. h = ring_adv lim m i"
proof -
  let ?M = "unat lim + 1"
  have i: "unat i < ?M" and h: "unat h < ?M" using assms by (simp_all add: word_le_nat_alt)
  define m where "m = (unat h + ?M - unat i) mod ?M"
  have "m < ?M" unfolding m_def by (rule mod_less_divisor) simp
  have "(unat i + m) mod ?M = (unat i + (unat h + ?M - unat i)) mod ?M"
    unfolding m_def by (simp add: mod_add_right_eq)
  also have "\<dots> = (unat h + ?M) mod ?M" using i by simp
  also have "\<dots> = unat h" by (simp only: mod_add_self2 mod_less[OF h])
  finally have "unat (ring_adv lim m i) = unat h" by (simp add: unat_ring_adv[OF assms(1)])
  then have "h = ring_adv lim m i" by (simp add: word_unat_eq_iff)
  with \<open>m < ?M\<close> show ?thesis by (intro exI[of _ m]) simp
qed

section \<open>Rounding to the buffer granularity\<close>

lemma and_not_incr: "(t::64 word) AND NOT (push_bit 7 1 - 1) = push_bit 7 (drop_bit 7 t)"
proof -
  have "push_bit 7 (1 :: 64 word) - 1 = mask 7"
    by (simp only: push_bit_of_1 mask_eq_exp_minus_1)
  then have "t AND NOT (push_bit 7 1 - 1) = t AND NOT (mask 7)" by (simp only:)
  also have "\<dots> = push_bit 7 (drop_bit 7 t)"
    by (rule bit_eqI) (auto simp: bit_simps)
  finally show ?thesis .
qed

lemma unat_and_not_incr:
  "unat ((t::64 word) AND NOT (push_bit 7 1 - 1)) = unat t div 128 * 128"
proof -
  have "unat t div 128 * 128 \<le> unat t" by simp
  also have "unat t < 2 ^ 64" using unsigned_less[of t] by simp
  finally have lt: "unat t div 128 * 128 < 2 ^ 64" .
  have nat_eq: "push_bit 7 (drop_bit 7 (unat t)) = unat t div 128 * 128"
    by (simp add: push_bit_eq_mult drop_bit_eq_div)
  have "unat (push_bit 7 (drop_bit 7 t)) = take_bit LENGTH(64) (push_bit 7 (drop_bit 7 (unat t)))"
    by (simp only: unsigned_push_bit_eq unat_drop_bit_eq)
  also have "\<dots> = take_bit 64 (unat t div 128 * 128)"
    by (simp only: nat_eq) simp
  also have "\<dots> = unat t div 128 * 128"
    using lt by (simp add: take_bit_nat_eq_self)
  finally show ?thesis by (simp only: and_not_incr)
qed

lemma round128_less: "(n::nat) div 128 * 128 < 1024 \<longleftrightarrow> n < 1024"
proof -
  have "n div 128 * 128 < 8 * 128 \<longleftrightarrow> n div 128 < 8" by (simp only: mult_less_cancel2) simp
  also have "\<dots> \<longleftrightarrow> n < 8 * 128" by (simp only: div_less_iff_less_mult) 
  finally show ?thesis by simp
qed

lemma round128_greater: "16256 < (n::nat) div 128 * 128 \<longleftrightarrow> 16384 \<le> n"
proof -
  have "127 * 128 < n div 128 * 128 \<longleftrightarrow> 127 < n div 128" by (simp only: mult_less_cancel2) simp
  also have "\<dots> \<longleftrightarrow> 128 \<le> n div 128" by linarith
  also have "\<dots> \<longleftrightarrow> 128 * 128 \<le> n" by (simp only: less_eq_div_iff_mult_less_eq)
  finally show ?thesis by simp
qed

lemma round128_bounds:
  "(n::nat) div 128 * 128 \<le> n" "n - 127 \<le> n div 128 * 128" "128 dvd n div 128 * 128"
proof -
  have "n = n div 128 * 128 + n mod 128" by simp
  moreover have "n mod 128 < 128" by simp
  ultimately show "n - 127 \<le> n div 128 * 128" by linarith
qed simp_all

lemma bufcfg_reject_iff:
  fixes t :: "64 word"
  shows "(t AND NOT (push_bit 7 1 - 1) < 1024 \<or> t AND NOT (push_bit 7 1 - 1) > 16384 - push_bit 7 1)
         \<longleftrightarrow> \<not> (1024 \<le> t \<and> t < 16384)"
proof -
  let ?r = "t AND NOT (push_bit 7 1 - 1)"
  have c: "(16384 :: 64 word) - push_bit 7 1 = 16256" by simp
  have "?r < 1024 \<longleftrightarrow> unat ?r < 1024" by (simp add: word_less_nat_alt)
  also have "\<dots> \<longleftrightarrow> unat t < 1024" by (simp only: unat_and_not_incr round128_less)
  also have "\<dots> \<longleftrightarrow> t < 1024" by (simp add: word_less_nat_alt)
  finally have lo: "?r < 1024 \<longleftrightarrow> t < 1024" .
  have "16256 < ?r \<longleftrightarrow> 16256 < unat ?r" by (simp add: word_less_nat_alt)
  also have "\<dots> \<longleftrightarrow> 16384 \<le> unat t" by (simp only: unat_and_not_incr round128_greater)
  also have "\<dots> \<longleftrightarrow> 16384 \<le> t" by (simp add: word_le_nat_alt)
  finally have hi: "16256 < ?r \<longleftrightarrow> 16384 \<le> t" .
  show ?thesis unfolding c lo hi by (simp add: not_less not_le)
qed

section \<open>Buffer-size configuration: the accepted requests\<close>

text \<open>
  C6, as stated, fails: a receive-side request need not be a multiple of the alignment
  to be accepted. The request 1100 is not a multiple of 128, and it is accepted, with
  1024 stored.
\<close>

theorem bufcfg_rounds_down_counterexample:
  "tx ex_kring = NR_RX \<and> \<not> (128 dvd (1100 :: nat)) \<and>
   ice_netmap_bufcfg ex_kring 1100 = (0, ex_kring\<lparr>buf_align := 0, hwbuf_len := 1024\<rparr>)"
  by (simp add: ice_netmap_bufcfg_def ex_kring_def ICE_RLAN_CTX_DBUF_S_def Let_def)

text \<open>
  C6, amended: on a transmit ring every request is accepted and stored as it is. On a
  receive ring a request is accepted if and only if it lies in \<open>[1024, 16384)\<close>; the
  value stored is the request rounded down to a multiple of the alignment (128), and a
  rejected request returns \<open>EINVAL\<close> and leaves \<open>hwbuf_len\<close> as it was. In both
  directions \<open>buf_align\<close> is reset to 0.
\<close>

theorem bufcfg_request_range:
  "(tx kring = NR_TX \<longrightarrow>
      ice_netmap_bufcfg kring target = (0, kring\<lparr>buf_align := 0, hwbuf_len := target\<rparr>)) \<and>
   (tx kring = NR_RX \<longrightarrow>
      ice_netmap_bufcfg kring target =
        (if 1024 \<le> target \<and> target < 16384
         then (0, kring\<lparr>buf_align := 0,
                        hwbuf_len := target AND NOT (push_bit ICE_RLAN_CTX_DBUF_S 1 - 1)\<rparr>)
         else (EINVAL, kring\<lparr>buf_align := 0\<rparr>))) \<and>
   128 dvd unat (target AND NOT (push_bit ICE_RLAN_CTX_DBUF_S 1 - 1)) \<and>
   unat target - 127 \<le> unat (target AND NOT (push_bit ICE_RLAN_CTX_DBUF_S 1 - 1)) \<and>
   unat (target AND NOT (push_bit ICE_RLAN_CTX_DBUF_S 1 - 1)) \<le> unat target"
proof -
  have tx_case: "tx kring = NR_TX \<longrightarrow>
      ice_netmap_bufcfg kring target = (0, kring\<lparr>buf_align := 0, hwbuf_len := target\<rparr>)"
    by (simp add: ice_netmap_bufcfg_def)
  have rx_case: "tx kring = NR_RX \<longrightarrow>
      ice_netmap_bufcfg kring target =
        (if 1024 \<le> target \<and> target < 16384
         then (0, kring\<lparr>buf_align := 0,
                        hwbuf_len := target AND NOT (push_bit ICE_RLAN_CTX_DBUF_S 1 - 1)\<rparr>)
         else (EINVAL, kring\<lparr>buf_align := 0\<rparr>))"
    unfolding ice_netmap_bufcfg_def Let_def ICE_RLAN_CTX_DBUF_S_def bufcfg_reject_iff
    by simp
  from round128_bounds[of "unat target"] have rounding:
    "128 dvd unat (target AND NOT (push_bit ICE_RLAN_CTX_DBUF_S 1 - 1)) \<and>
     unat target - 127 \<le> unat (target AND NOT (push_bit ICE_RLAN_CTX_DBUF_S 1 - 1)) \<and>
     unat (target AND NOT (push_bit ICE_RLAN_CTX_DBUF_S 1 - 1)) \<le> unat target"
    unfolding ICE_RLAN_CTX_DBUF_S_def unat_and_not_incr by simp
  from tx_case rx_case rounding show ?thesis by blast
qed

theorem bufcfg_request_range_witness:
  "tx ex_kring = NR_RX \<and> tx (ex_kring\<lparr>tx := NR_TX\<rparr>) = NR_TX \<and>
   ice_netmap_bufcfg ex_kring 1000 = (EINVAL, ex_kring\<lparr>buf_align := 0\<rparr>) \<and>
   hwbuf_len (snd (ice_netmap_bufcfg ex_kring 1000)) = hwbuf_len ex_kring \<and>
   ice_netmap_bufcfg ex_kring 2048 = (0, ex_kring\<lparr>buf_align := 0, hwbuf_len := 2048\<rparr>) \<and>
   ice_netmap_bufcfg ex_kring 16383 = (0, ex_kring\<lparr>buf_align := 0, hwbuf_len := 16256\<rparr>) \<and>
   ice_netmap_bufcfg ex_kring 16384 = (EINVAL, ex_kring\<lparr>buf_align := 0\<rparr>) \<and>
   ice_netmap_bufcfg (ex_kring\<lparr>tx := NR_TX\<rparr>) 7 =
     (0, ex_kring\<lparr>tx := NR_TX, buf_align := 0, hwbuf_len := 7\<rparr>)"
proof -
  have rx: "tx ex_kring = NR_RX" by (simp add: ex_kring_def)
  have tx: "tx (ex_kring\<lparr>tx := NR_TX\<rparr>) = NR_TX" by simp
  note r = bufcfg_request_range[THEN conjunct2, THEN conjunct1, rule_format, OF rx]
  note t = bufcfg_request_range[THEN conjunct1, rule_format, OF tx]
  show ?thesis
    using rx r[of 1000] r[of 2048] r[of 16383] r[of 16384] t[of 7]
    by (simp add: ICE_RLAN_CTX_DBUF_S_def)
qed

section \<open>The preconditions of the reconcilers\<close>

text \<open>
  C7: a transmit reconcile with the link not active, and a receive reconcile with the
  interface not running, return 0 and leave the whole state (kring, slots, NIC ring,
  descriptors, trace of register writes and synchronisations) as it was.
\<close>

theorem sync_not_up_noop:
  "(\<not> netif_carrier_ok (ifp (na (kring_of s))) \<longrightarrow> ice_netmap_txsync s flgs = Some (Ret 0, s)) \<and>
   (\<not> netif_running (ifp (na (kring_of r))) \<longrightarrow> ice_netmap_rxsync r flgs' = Some (Ret 0, r))"
  by (simp add: ice_netmap_txsync_def ice_netmap_rxsync_def)

theorem sync_not_up_noop_witness:
  "\<not> netif_carrier_ok (ifp (na (kring_of (ex_tx\<lparr>kring_of := ex_down (kring_of ex_tx)\<rparr>)))) \<and>
   \<not> netif_running (ifp (na (kring_of (ex_rx\<lparr>kring_of := ex_down (kring_of ex_rx)\<rparr>)))) \<and>
   ice_netmap_txsync (ex_tx\<lparr>kring_of := ex_down (kring_of ex_tx)\<rparr>) 0 =
     Some (Ret 0, ex_tx\<lparr>kring_of := ex_down (kring_of ex_tx)\<rparr>) \<and>
   ice_netmap_rxsync (ex_rx\<lparr>kring_of := ex_down (kring_of ex_rx)\<rparr>) 1 =
     Some (Ret 0, ex_rx\<lparr>kring_of := ex_down (kring_of ex_rx)\<rparr>)"
  using sync_not_up_noop[of "ex_tx\<lparr>kring_of := ex_down (kring_of ex_tx)\<rparr>" 0
                            "ex_rx\<lparr>kring_of := ex_down (kring_of ex_rx)\<rparr>" 1]
  by (simp add: ex_down_def)

text \<open>
  C8: with the link active (respectively the interface running) and the NIC ring absent
  or its descriptor memory unallocated, the reconciler returns \<open>ENXIO\<close>; the only
  effect is the call of the rate-limited log \<open>nm_prlim\<close>, and the kring, the slots and
  the NIC ring are as they were.
\<close>

theorem sync_ring_unavailable:
  "(netif_carrier_ok (ifp (na (kring_of s))) \<and> ring_missing s \<longrightarrow>
      ice_netmap_txsync s flgs = Some (Ret ENXIO, s\<lparr>events := events s @ [Nm_prlim]\<rparr>)) \<and>
   (netif_running (ifp (na (kring_of r))) \<and> ring_missing r \<longrightarrow>
      ice_netmap_rxsync r flgs' = Some (Ret ENXIO, r\<lparr>events := events r @ [Nm_prlim]\<rparr>))"
  by (simp add: ice_netmap_txsync_def ice_netmap_rxsync_def ring_missing_def Let_def
           split: option.splits)

theorem sync_ring_unavailable_witness:
  "netif_carrier_ok (ifp (na (kring_of (ex_tx\<lparr>hw_ring := None\<rparr>)))) \<and>
   ring_missing (ex_tx\<lparr>hw_ring := None\<rparr>) \<and>
   netif_running (ifp (na (kring_of (ex_rx\<lparr>hw_ring := Some \<lparr>desc = None, next_to_clean = 3\<rparr>\<rparr>)))) \<and>
   ring_missing (ex_rx\<lparr>hw_ring := Some \<lparr>desc = None, next_to_clean = 3\<rparr>\<rparr>) \<and>
   ice_netmap_txsync (ex_tx\<lparr>hw_ring := None\<rparr>) 0 =
     Some (Ret 6, ex_tx\<lparr>hw_ring := None, events := [Nm_prlim]\<rparr>) \<and>
   ice_netmap_rxsync (ex_rx\<lparr>hw_ring := Some \<lparr>desc = None, next_to_clean = 3\<rparr>\<rparr>) 0 =
     Some (Ret 6, ex_rx\<lparr>hw_ring := Some \<lparr>desc = None, next_to_clean = 3\<rparr>, events := [Nm_prlim]\<rparr>)"
  using sync_ring_unavailable[of "ex_tx\<lparr>hw_ring := None\<rparr>" 0
          "ex_rx\<lparr>hw_ring := Some \<lparr>desc = None, next_to_clean = 3\<rparr>\<rparr>" 0]
  by (simp add: ring_missing_def ex_tx_def ex_rx_def ex_kring_def ex_na_def ENXIO_def)

text \<open>
  C10: the link and running tests come before the test of the ring: with the carrier off
  (respectively the interface not running) and the NIC ring absent or its descriptor
  memory unallocated, the reconciler returns 0 with the state unchanged, and not
  \<open>ENXIO\<close>.
\<close>

theorem sync_not_up_before_ring_check:
  "(\<not> netif_carrier_ok (ifp (na (kring_of s))) \<and> ring_missing s \<longrightarrow>
      ice_netmap_txsync s flgs = Some (Ret 0, s) \<and>
      fst (the (ice_netmap_txsync s flgs)) \<noteq> Ret ENXIO) \<and>
   (\<not> netif_running (ifp (na (kring_of r))) \<and> ring_missing r \<longrightarrow>
      ice_netmap_rxsync r flgs' = Some (Ret 0, r) \<and>
      fst (the (ice_netmap_rxsync r flgs')) \<noteq> Ret ENXIO)"
  by (simp add: ice_netmap_txsync_def ice_netmap_rxsync_def ENXIO_def)

theorem sync_not_up_before_ring_check_witness:
  "\<not> netif_carrier_ok (ifp (na (kring_of (ex_tx\<lparr>kring_of := ex_down (kring_of ex_tx), hw_ring := None\<rparr>)))) \<and>
   ring_missing (ex_tx\<lparr>kring_of := ex_down (kring_of ex_tx), hw_ring := None\<rparr>) \<and>
   \<not> netif_running (ifp (na (kring_of (ex_rx\<lparr>kring_of := ex_down (kring_of ex_rx),
          hw_ring := Some \<lparr>desc = None, next_to_clean = 0\<rparr>\<rparr>)))) \<and>
   ring_missing (ex_rx\<lparr>kring_of := ex_down (kring_of ex_rx),
          hw_ring := Some \<lparr>desc = None, next_to_clean = 0\<rparr>\<rparr>) \<and>
   ice_netmap_txsync (ex_tx\<lparr>kring_of := ex_down (kring_of ex_tx), hw_ring := None\<rparr>) 0 =
     Some (Ret 0, ex_tx\<lparr>kring_of := ex_down (kring_of ex_tx), hw_ring := None\<rparr>) \<and>
   ice_netmap_rxsync (ex_rx\<lparr>kring_of := ex_down (kring_of ex_rx),
          hw_ring := Some \<lparr>desc = None, next_to_clean = 0\<rparr>\<rparr>) 0 =
     Some (Ret 0, ex_rx\<lparr>kring_of := ex_down (kring_of ex_rx),
          hw_ring := Some \<lparr>desc = None, next_to_clean = 0\<rparr>\<rparr>)"
  using sync_not_up_before_ring_check[of
          "ex_tx\<lparr>kring_of := ex_down (kring_of ex_tx), hw_ring := None\<rparr>" 0
          "ex_rx\<lparr>kring_of := ex_down (kring_of ex_rx),
                 hw_ring := Some \<lparr>desc = None, next_to_clean = 0\<rparr>\<rparr>" 0]
  by (simp add: ring_missing_def ex_down_def)

section \<open>The loops of the transmit reconciler\<close>

lemma tx_send_loop_rule:
  assumes "nm_i \<le> lim" and "m \<le> unat lim" and "head = ring_adv lim m nm_i"
    and "I 0 kring d ev"
    and step: "\<And>j kring d ev. j < m \<Longrightarrow> I j kring d ev \<Longrightarrow>
           (case tx_send_slot rf (ring_adv lim j nm_i) (ring_adv lim j nic_i) kring d ev of
              (kring', d', ev') \<Rightarrow> I (Suc j) kring' d' ev')"
  shows "\<exists>kring' d' ev'.
           tx_send_loop lim head rf nm_i nic_i kring d ev =
             Some (ring_adv lim m nic_i, kring', d', ev') \<and> I m kring' d' ev'"
  using assms
proof (induction m arbitrary: nm_i nic_i kring d ev I)
  case 0
  then show ?case by (simp add: tx_send_loop.simps)
next
  case (Suc m)
  have ne: "nm_i \<noteq> head"
    using ring_adv_neq[OF Suc.prems(1), of 0 "Suc m"] Suc.prems(2,3) by simp
  obtain k1 d1 ev1 where body: "tx_send_slot rf nm_i nic_i kring d ev = (k1, d1, ev1)"
    by (cases "tx_send_slot rf nm_i nic_i kring d ev") auto
  have I1: "I (Suc 0) k1 d1 ev1"
    using Suc.prems(5)[of 0 kring d ev] Suc.prems(4) body by simp
  have "\<exists>kring' d' ev'.
          tx_send_loop lim head rf (nm_next nm_i lim) (nm_next nic_i lim) k1 d1 ev1 =
            Some (ring_adv lim m (nm_next nic_i lim), kring', d', ev') \<and>
          (\<lambda>j. I (Suc j)) m kring' d' ev'"
  proof (rule Suc.IH)
    show "nm_next nm_i lim \<le> lim" by (rule nm_next_le[OF Suc.prems(1)])
    show "m \<le> unat lim" using Suc.prems(2) by simp
    show "head = ring_adv lim m (nm_next nm_i lim)"
      using Suc.prems(3) by (simp only: ring_adv_Suc2)
    show "I (Suc 0) k1 d1 ev1" by (rule I1)
    fix j kring d ev
    assume "j < m" and "I (Suc j) kring d ev"
    then show "case tx_send_slot rf (ring_adv lim j (nm_next nm_i lim))
                      (ring_adv lim j (nm_next nic_i lim)) kring d ev of
                 (kring', d', ev') \<Rightarrow> I (Suc (Suc j)) kring' d' ev'"
      using Suc.prems(5)[of "Suc j" kring d ev] by (simp only: ring_adv_Suc2 Suc_less_eq)
  qed
  then show ?case
    using ne body by (subst tx_send_loop.simps) (simp add: ring_adv_Suc2)
qed

lemma and_exp_neq_0_iff_bit:
  fixes x :: "'a::len word"
  shows "x AND 2 ^ n \<noteq> 0 \<longleftrightarrow> bit x n"
  by (simp add: and_exp_eq_0_iff_not_bit)

lemma tx_desc_rs_bit: "tx_desc_rs dsc = bit (cmd_type_offset_bsz dsc) 5"
proof -
  have "push_bit ICE_TXD_QW1_CMD_S ICE_TX_DESC_CMD_RS = (2 :: 64 word) ^ 5"
    by (simp add: ICE_TXD_QW1_CMD_S_def ICE_TX_DESC_CMD_RS_def)
  then show ?thesis unfolding tx_desc_rs_def by (simp only: and_exp_neq_0_iff_bit)
qed

lemma tx_desc_eop_bit: "tx_desc_eop dsc = bit (cmd_type_offset_bsz dsc) 4"
proof -
  have "push_bit ICE_TXD_QW1_CMD_S ICE_TX_DESC_CMD_EOP = (2 :: 64 word) ^ 4"
    by (simp add: ICE_TXD_QW1_CMD_S_def ICE_TX_DESC_CMD_EOP_def)
  then show ?thesis unfolding tx_desc_eop_def by (simp only: and_exp_neq_0_iff_bit)
qed

lemma bit5_tx_hw_flags:
  "bit (tx_hw_flags fl nic_i rf) 5 \<longleftrightarrow>
     fl AND NS_MOREFRAG = 0 \<and> (fl AND NS_REPORT \<noteq> 0 \<or> nic_i = 0 \<or> nic_i = rf)"
  by (simp add: tx_hw_flags_def ICE_TXD_QW1_CMD_S_def ICE_TX_DESC_CMD_RS_def
        ICE_TX_DESC_CMD_EOP_def bit_simps)

lemma bit4_tx_hw_flags:
  "bit (tx_hw_flags fl nic_i rf) 4 \<longleftrightarrow> fl AND NS_MOREFRAG = 0"
  by (simp add: tx_hw_flags_def ICE_TXD_QW1_CMD_S_def ICE_TX_DESC_CMD_RS_def
        ICE_TX_DESC_CMD_EOP_def bit_simps)

lemma tx_send_slot_desc:
  assumes "tx_send_slot rf nm_i nic_i kring d ev = (kring', d', ev')"
  shows "tx_desc_rs (d' nic_i) \<longleftrightarrow>
           flags (ring_slot kring nm_i) AND NS_MOREFRAG = 0 \<and>
           (flags (ring_slot kring nm_i) AND NS_REPORT \<noteq> 0 \<or> nic_i = 0 \<or> nic_i = rf)"
    and "tx_desc_eop (d' nic_i) \<longleftrightarrow> flags (ring_slot kring nm_i) AND NS_MOREFRAG = 0"
    and "\<And>x. x \<noteq> nic_i \<Longrightarrow> d' x = d x"
    and "\<And>x. x \<noteq> nm_i \<Longrightarrow> ring_slot kring' x = ring_slot kring x"
proof -
  from assms have d': "d' = d(nic_i := \<lparr>buf_addr = snd (PNMB (na kring) (buf_idx (ring_slot kring nm_i))) +
                            nm_get_offset kring (ring_slot kring nm_i),
        cmd_type_offset_bsz =
          push_bit ICE_TXD_QW1_TX_BUF_SZ_S
            (ucast (NM_CHECK_ADDR_LEN_OFF (na kring) (ucast (len (ring_slot kring nm_i)))
                      (nm_get_offset kring (ring_slot kring nm_i))) :: u64)
          OR tx_hw_flags (flags (ring_slot kring nm_i)) nic_i rf\<rparr>)"
    and k': "ring_slot kring' = (ring_slot kring)(nm_i := (ring_slot kring nm_i)
               \<lparr>flags := flags (ring_slot kring nm_i) AND NOT (NS_REPORT OR NS_BUF_CHANGED OR NS_MOREFRAG)\<rparr>)"
    by (auto simp: tx_send_slot_def Let_def)
  show "tx_desc_rs (d' nic_i) \<longleftrightarrow>
           flags (ring_slot kring nm_i) AND NS_MOREFRAG = 0 \<and>
           (flags (ring_slot kring nm_i) AND NS_REPORT \<noteq> 0 \<or> nic_i = 0 \<or> nic_i = rf)"
    unfolding tx_desc_rs_bit d'
    by (simp add: bit_or_iff bit_push_bit_iff ICE_TXD_QW1_TX_BUF_SZ_S_def bit5_tx_hw_flags)
  show "tx_desc_eop (d' nic_i) \<longleftrightarrow> flags (ring_slot kring nm_i) AND NS_MOREFRAG = 0"
    unfolding tx_desc_eop_bit d'
    by (simp add: bit_or_iff bit_push_bit_iff ICE_TXD_QW1_TX_BUF_SZ_S_def bit4_tx_hw_flags)
  show "\<And>x. x \<noteq> nic_i \<Longrightarrow> d' x = d x" by (simp add: d')
  show "\<And>x. x \<noteq> nm_i \<Longrightarrow> ring_slot kring' x = ring_slot kring x" by (simp add: k')
qed

lemma less_imp_le_pred:
  fixes x N :: "'a::len word"
  assumes "x < N" shows "x \<le> N - 1"
proof -
  from assms have "unat x < unat N" by (simp add: word_less_nat_alt)
  moreover from this have "N \<noteq> 0" by auto
  then have "unat (N - 1) = unat N - 1" by (rule unat_minus_one)
  ultimately show ?thesis by (simp add: word_le_nat_alt)
qed

lemma le_pred_imp_less:
  fixes x N :: "'a::len word"
  assumes "N \<noteq> 0" "x \<le> N - 1" shows "x < N"
proof -
  have "0 < N" using assms(1) by (simp add: word_greater_zero_iff)
  then have "N - 1 < N" by (simp add: word_less_nat_alt unat_minus_one word_greater_zero_iff unat_gt_0)
  with assms(2) show ?thesis by simp
qed

lemma uint_pred_plus_1:
  fixes N :: "'a::len word"
  assumes "N \<noteq> 0" shows "uint (N - 1) + 1 = uint N"
proof -
  have "0 < unat N" using assms by (simp add: unat_gt_0)
  moreover have "unat (N - 1) = unat N - 1" using assms by (rule unat_minus_one)
  ultimately have "int (unat (N - 1)) + 1 = int (unat N)" by simp
  then show ?thesis by (simp only: uint_nat)
qed

lemma uint_nm_next:
  assumes "i \<le> lim" shows "uint (nm_next i lim) = (uint i + 1) mod (uint lim + 1)"
proof -
  have "uint (nm_next i lim) = int (unat (nm_next i lim))" by (rule uint_nat)
  also have "\<dots> = int ((unat i + 1) mod (unat lim + 1))"
    by (simp only: unat_nm_next[OF assms])
  also have "\<dots> = (int (unat i) + 1) mod (int (unat lim) + 1)"
    by (simp only: zmod_int of_nat_add of_nat_1)
  also have "\<dots> = (uint i + 1) mod (uint lim + 1)"
    by (simp only: uint_nat)
  finally show ?thesis .
qed

lemma uint_pos:
  fixes N :: "'a::len word"
  assumes "N \<noteq> 0" shows "0 < uint N"
proof -
  have "uint N \<noteq> 0" using assms by (simp add: uint_0_iff)
  moreover have "0 \<le> uint N" by simp
  ultimately show ?thesis by linarith
qed

lemma uint_idx_mod:
  fixes N :: "32 word"
  assumes "N \<noteq> 0"
  shows "uint (word_of_int (x mod uint N) :: 32 word) = x mod uint N"
proof -
  have pos: "0 < uint N" using assms by (rule uint_pos)
  have nonneg: "0 \<le> x mod uint N" and lt: "x mod uint N < uint N" using pos by simp_all
  have "uint N < 2 ^ LENGTH(32)" by (rule uint_bounded)
  with lt have "x mod uint N < 2 ^ LENGTH(32)" by (rule less_trans)
  with nonneg have "(x mod uint N) mod 2 ^ LENGTH(32) = x mod uint N" by (rule mod_pos_pos_trivial)
  then show ?thesis by (simp only: uint_word_of_int)
qed

lemma idx_mod_le:
  fixes N :: "32 word"
  assumes "N \<noteq> 0"
  shows "(word_of_int (x mod uint N) :: 32 word) \<le> N - 1"
proof -
  have pos: "0 < uint N" using assms by (rule uint_pos)
  have "uint (word_of_int (x mod uint N) :: 32 word) < uint N"
    unfolding uint_idx_mod[OF assms] using pos by simp
  then have "(word_of_int (x mod uint N) :: 32 word) < N" by (simp add: word_less_def)
  then show ?thesis by (rule less_imp_le_pred)
qed

lemma netmap_idx_n2k_le:
  "nkr_num_slots kr \<noteq> 0 \<Longrightarrow> netmap_idx_n2k kr i \<le> nkr_num_slots kr - 1"
  unfolding netmap_idx_n2k_def by (rule idx_mod_le)

lemma netmap_idx_k2n_le:
  "nkr_num_slots kr \<noteq> 0 \<Longrightarrow> netmap_idx_k2n kr i \<le> nkr_num_slots kr - 1"
  unfolding netmap_idx_k2n_def by (rule idx_mod_le)

lemma idx_mod_next:
  fixes N :: "32 word"
  assumes N: "N \<noteq> 0" and i: "i \<le> N - 1"
  shows "(word_of_int ((uint (nm_next i (N - 1)) + h) mod uint N) :: 32 word) =
         nm_next (word_of_int ((uint i + h) mod uint N)) (N - 1)"
proof -
  have M: "uint (N - 1) + 1 = uint N" by (rule uint_pred_plus_1[OF N])
  have "uint (nm_next (word_of_int ((uint i + h) mod uint N) :: 32 word) (N - 1)) =
        (uint (word_of_int ((uint i + h) mod uint N) :: 32 word) + 1) mod uint N"
    using uint_nm_next[OF idx_mod_le[OF N, of "uint i + h"]] by (simp only: M)
  also have "\<dots> = ((uint i + h) mod uint N + 1) mod uint N"
    by (simp only: uint_idx_mod[OF N])
  also have "\<dots> = (uint i + 1 + h) mod uint N"
    by (simp add: mod_simps algebra_simps)
  also have "\<dots> = ((uint i + 1) mod uint N + h) mod uint N"
    by (simp add: mod_simps)
  also have "\<dots> = (uint (nm_next i (N - 1)) + h) mod uint N"
    using uint_nm_next[OF i] by (simp only: M)
  also have "\<dots> = uint (word_of_int ((uint (nm_next i (N - 1)) + h) mod uint N) :: 32 word)"
    by (simp only: uint_idx_mod[OF N])
  finally show ?thesis by (simp only: word_uint_eq_iff)
qed

lemma netmap_idx_n2k_next:
  "nkr_num_slots kr \<noteq> 0 \<Longrightarrow> i \<le> nkr_num_slots kr - 1 \<Longrightarrow>
   netmap_idx_n2k kr (nm_next i (nkr_num_slots kr - 1)) =
     nm_next (netmap_idx_n2k kr i) (nkr_num_slots kr - 1)"
  unfolding netmap_idx_n2k_def by (rule idx_mod_next)

lemma netmap_idx_n2k_adv:
  assumes "nkr_num_slots kr \<noteq> 0" and "i \<le> nkr_num_slots kr - 1"
  shows "netmap_idx_n2k kr (ring_adv (nkr_num_slots kr - 1) j i) =
           ring_adv (nkr_num_slots kr - 1) j (netmap_idx_n2k kr i)"
proof (induction j)
  case 0
  show ?case by simp
next
  case (Suc j)
  show ?case
    by (simp only: ring_adv_Suc netmap_idx_n2k_next[OF assms(1) ring_adv_le[OF assms(2)]] Suc)
qed

lemma nm_prev_next:
  assumes "i \<le> lim" shows "nm_prev (nm_next i lim) lim = i"
proof (cases "i = lim")
  case True
  then show ?thesis by (simp add: nm_next_def nm_prev_def)
next
  case False
  with assms have "i < lim" by simp
  then have "unat (i + 1) = Suc (unat i)" by (rule unat_inc_less)
  then have "i + 1 \<noteq> 0" by auto
  with False show ?thesis by (simp add: nm_next_def nm_prev_def)
qed

lemma nm_next_prev:
  assumes "i \<le> lim" shows "nm_next (nm_prev i lim) lim = i"
proof (cases "i = 0")
  case True
  then show ?thesis by (simp add: nm_next_def nm_prev_def)
next
  case False
  have "i - 1 < i" using False by (simp add: word_less_nat_alt unat_minus_one unat_gt_0)
  with assms have "i - 1 \<noteq> lim" by auto
  with False show ?thesis by (simp add: nm_next_def nm_prev_def)
qed

lemma nm_prev_le:
  assumes "i \<le> lim" shows "nm_prev i lim \<le> lim"
proof (cases "i = 0")
  case True
  then show ?thesis by (simp add: nm_prev_def)
next
  case False
  have "i - 1 < i" using False by (simp add: word_less_nat_alt unat_minus_one unat_gt_0)
  with assms False show ?thesis by (simp add: nm_prev_def)
qed

lemma is_sync_cpu_simps [simp]:
  "is_sync_cpu (Sync_map_cpu a l t)" "\<not> is_sync_cpu (Sync_map_dev a l t)"
  "\<not> is_sync_cpu Wmb" "\<not> is_sync_cpu (Writel v)" "\<not> is_sync_cpu Nm_prlim"
  by (simp_all add: is_sync_cpu_def)

lemma tx_send_slot_frame:
  assumes "tx_send_slot rf nm_i nic_i kring d ev = (kring', d', ev')"
  shows "nr_hwtail kring' = nr_hwtail kring" "nkr_num_slots kring' = nkr_num_slots kring"
    "nkr_hwofs kring' = nkr_hwofs kring" "rhead kring' = rhead kring"
    "filter is_sync_cpu ev' = filter is_sync_cpu ev"
  using assms by (auto simp: tx_send_slot_def Let_def)

lemma tx_send_inv_step:
  assumes nm0: "nm0 \<le> lim" and nic0: "nic0 \<le> lim" and m: "m \<le> unat lim" and j: "j < m"
    and inv: "tx_send_inv lim rf m nm0 nic0 k0 d0 ev0 j k d ev"
  shows "case tx_send_slot rf (ring_adv lim j nm0) (ring_adv lim j nic0) k d ev of
           (k', d', ev') \<Rightarrow> tx_send_inv lim rf m nm0 nic0 k0 d0 ev0 (Suc j) k' d' ev'"
proof -
  obtain k' d' ev' where
    body: "tx_send_slot rf (ring_adv lim j nm0) (ring_adv lim j nic0) k d ev = (k', d', ev')"
    by (cases "tx_send_slot rf (ring_adv lim j nm0) (ring_adv lim j nic0) k d ev") auto
  note desc = tx_send_slot_desc[OF body]
  note frame = tx_send_slot_frame[OF body]
  have slot_j: "ring_slot k (ring_adv lim j nm0) = ring_slot k0 (ring_adv lim j nm0)"
    using inv j by (simp add: tx_send_inv_def)
  have nic_neq: "ring_adv lim j' nic0 \<noteq> ring_adv lim j nic0" if "j' < j" for j'
    using ring_adv_neq[OF nic0, of j' j] that j m by simp
  have nm_neq: "ring_adv lim j' nm0 \<noteq> ring_adv lim j nm0" if "Suc j \<le> j'" "j' < m" for j'
    using ring_adv_neq[OF nm0, of j j'] that m by simp
  have nic_le: "ring_adv lim j nic0 \<le> lim" by (rule ring_adv_le[OF nic0])
  have a: "\<forall>j'<Suc j.
        (tx_desc_rs (d' (ring_adv lim j' nic0)) \<longleftrightarrow>
           flags (ring_slot k0 (ring_adv lim j' nm0)) AND NS_MOREFRAG = 0 \<and>
           (flags (ring_slot k0 (ring_adv lim j' nm0)) AND NS_REPORT \<noteq> 0 \<or>
            ring_adv lim j' nic0 = 0 \<or> ring_adv lim j' nic0 = rf)) \<and>
        (tx_desc_eop (d' (ring_adv lim j' nic0)) \<longleftrightarrow>
           flags (ring_slot k0 (ring_adv lim j' nm0)) AND NS_MOREFRAG = 0)"
  proof (intro allI impI)
    fix j' assume "j' < Suc j"
    then consider "j' < j" | "j' = j" by linarith
    then show "(tx_desc_rs (d' (ring_adv lim j' nic0)) \<longleftrightarrow>
           flags (ring_slot k0 (ring_adv lim j' nm0)) AND NS_MOREFRAG = 0 \<and>
           (flags (ring_slot k0 (ring_adv lim j' nm0)) AND NS_REPORT \<noteq> 0 \<or>
            ring_adv lim j' nic0 = 0 \<or> ring_adv lim j' nic0 = rf)) \<and>
        (tx_desc_eop (d' (ring_adv lim j' nic0)) \<longleftrightarrow>
           flags (ring_slot k0 (ring_adv lim j' nm0)) AND NS_MOREFRAG = 0)"
    proof cases
      case 1
      then have "d' (ring_adv lim j' nic0) = d (ring_adv lim j' nic0)"
        by (intro desc(3) nic_neq)
      with inv 1 show ?thesis by (simp add: tx_send_inv_def)
    next
      case 2
      then show ?thesis using desc(1,2) slot_j by simp
    qed
  qed
  have b: "\<forall>j'. Suc j \<le> j' \<longrightarrow> j' < m \<longrightarrow>
        ring_slot k' (ring_adv lim j' nm0) = ring_slot k0 (ring_adv lim j' nm0)"
  proof (intro allI impI)
    fix j' assume j': "Suc j \<le> j'" "j' < m"
    then have "ring_slot k' (ring_adv lim j' nm0) = ring_slot k (ring_adv lim j' nm0)"
      by (intro desc(4) nm_neq)
    with inv j' show "ring_slot k' (ring_adv lim j' nm0) = ring_slot k0 (ring_adv lim j' nm0)"
      by (simp add: tx_send_inv_def)
  qed
  have c: "\<forall>x. lim < x \<longrightarrow> d' x = d0 x"
  proof (intro allI impI)
    fix x assume x: "lim < x"
    with nic_le have "x \<noteq> ring_adv lim j nic0" by auto
    then have "d' x = d x" by (rule desc(3))
    with inv x show "d' x = d0 x" by (simp add: tx_send_inv_def)
  qed
  have e: "nr_hwtail k' = nr_hwtail k0 \<and> nkr_num_slots k' = nkr_num_slots k0 \<and>
     nkr_hwofs k' = nkr_hwofs k0 \<and> rhead k' = rhead k0 \<and>
     filter is_sync_cpu ev' = filter is_sync_cpu ev0"
    using inv frame by (simp add: tx_send_inv_def)
  from a b c e have "tx_send_inv lim rf m nm0 nic0 k0 d0 ev0 (Suc j) k' d' ev'"
    unfolding tx_send_inv_def by blast
  then show ?thesis by (simp add: body)
qed

lemma tx_send_inv_0: "tx_send_inv lim rf m nm0 nic0 k0 d0 ev0 0 k0 d0 ev0"
  by (simp add: tx_send_inv_def)

lemma tx_send_inv_publish:
  "tx_send_inv lim rf m nm0 nic0 k0 d0 ev0 j k d ev \<Longrightarrow>
   tx_send_inv lim rf m nm0 nic0 k0 d0 ev0 j (k\<lparr>nr_hwcur := h\<rparr>) d (ev @ [Wmb, Writel v])"
  by (simp add: tx_send_inv_def)

lemma tx_send_loop_total:
  assumes "nm0 \<le> lim" and "nic0 \<le> lim" and "m \<le> unat lim" and "head = ring_adv lim m nm0"
  shows "\<exists>k' d' ev'.
           tx_send_loop lim head rf nm0 nic0 k0 d0 ev0 =
             Some (ring_adv lim m nic0, k', d', ev') \<and>
           tx_send_inv lim rf m nm0 nic0 k0 d0 ev0 m k' d' ev'"
  by (rule tx_send_loop_rule[where I = "tx_send_inv lim rf m nm0 nic0 k0 d0 ev0",
              OF assms(1,3,4) tx_send_inv_0])
     (rule tx_send_inv_step[OF assms(1,2,3)])

lemma tx_send_total:
  assumes hwcur: "nr_hwcur k < nkr_num_slots k"
    and m: "m \<le> unat (nkr_num_slots k - 1)"
    and head: "rhead k = ring_adv (nkr_num_slots k - 1) m (nr_hwcur k)"
  shows "\<exists>k1 d1 ev1.
           tx_send k d ev = Some (k1, d1, ev1) \<and>
           tx_send_inv (nkr_num_slots k - 1) (drop_bit 1 (nkr_num_slots k)) m (nr_hwcur k)
             (netmap_idx_k2n k (nr_hwcur k)) k d ev m k1 d1 ev1 \<and>
           nr_hwcur k1 = rhead k"
proof -
  let ?lim = "nkr_num_slots k - 1"
  have N: "nkr_num_slots k \<noteq> 0" using hwcur by auto
  have nm0: "nr_hwcur k \<le> ?lim" using hwcur by (rule less_imp_le_pred)
  have nic0: "netmap_idx_k2n k (nr_hwcur k) \<le> ?lim" by (rule netmap_idx_k2n_le[OF N])
  show ?thesis
  proof (cases "m = 0")
    case True
    then have "tx_send k d ev = Some (k, d, ev)"
      using head by (simp add: tx_send_def)
    moreover have "tx_send_inv ?lim (drop_bit 1 (nkr_num_slots k)) m (nr_hwcur k)
             (netmap_idx_k2n k (nr_hwcur k)) k d ev m k d ev"
      unfolding True by (rule tx_send_inv_0)
    moreover have "nr_hwcur k = rhead k" using head True by simp
    ultimately show ?thesis by blast
  next
    case False
    then have ne: "nr_hwcur k \<noteq> rhead k"
      using ring_adv_neq[OF nm0, of 0 m] m head by simp
    from tx_send_loop_total[OF nm0 nic0 m head]
    obtain k' d' ev' where
      loop: "tx_send_loop ?lim (rhead k) (drop_bit 1 (nkr_num_slots k)) (nr_hwcur k)
               (netmap_idx_k2n k (nr_hwcur k)) k d ev =
             Some (ring_adv ?lim m (netmap_idx_k2n k (nr_hwcur k)), k', d', ev')"
      and inv: "tx_send_inv ?lim (drop_bit 1 (nkr_num_slots k)) m (nr_hwcur k)
             (netmap_idx_k2n k (nr_hwcur k)) k d ev m k' d' ev'"
      by blast
    have "tx_send k d ev =
            Some (k'\<lparr>nr_hwcur := rhead k\<rparr>, d',
                  ev' @ [Wmb, Writel (ring_adv ?lim m (netmap_idx_k2n k (nr_hwcur k)))])"
      using ne loop by (simp add: tx_send_def Let_def)
    moreover note tx_send_inv_publish[OF inv]
    moreover have "nr_hwcur (k'\<lparr>nr_hwcur := rhead k\<rparr>) = rhead k" by simp
    ultimately show ?thesis by blast
  qed
qed

lemma map_upt_Suc_shift: "map f [0..<Suc m] = f 0 # map (\<lambda>j. f (Suc j)) [0..<m]"
  by (simp only: map_upt_Suc)

lemma tx_sync_loop_run:
  assumes "tosync \<le> lim" and "m \<le> unat lim" and "nm_i = ring_adv lim m tosync"
  shows "tx_sync_loop lim nm_i kring tosync ev =
           Some (ev @ map (\<lambda>j. Sync_map_cpu
                            (snd (PNMB_O kring (ring_slot kring (ring_adv lim j tosync))))
                            (ucast (len (ring_slot kring (ring_adv lim j tosync)))) NR_TX)
                        [0..<m])"
  using assms
proof (induction m arbitrary: tosync ev)
  case 0
  then show ?case by (simp add: tx_sync_loop.simps)
next
  case (Suc m)
  have ne: "tosync \<noteq> nm_i"
    using ring_adv_neq[OF Suc.prems(1), of 0 "Suc m"] Suc.prems(2,3) by simp
  have IH: "tx_sync_loop lim nm_i kring (nm_next tosync lim)
              (ev @ [Sync_map_cpu (snd (PNMB_O kring (ring_slot kring tosync)))
                        (ucast (len (ring_slot kring tosync))) NR_TX]) =
            Some ((ev @ [Sync_map_cpu (snd (PNMB_O kring (ring_slot kring tosync)))
                        (ucast (len (ring_slot kring tosync))) NR_TX]) @
                  map (\<lambda>j. Sync_map_cpu
                         (snd (PNMB_O kring (ring_slot kring (ring_adv lim j (nm_next tosync lim)))))
                         (ucast (len (ring_slot kring (ring_adv lim j (nm_next tosync lim))))) NR_TX)
                      [0..<m])"
  proof (rule Suc.IH)
    show "nm_next tosync lim \<le> lim" by (rule nm_next_le[OF Suc.prems(1)])
    show "m \<le> unat lim" using Suc.prems(2) by simp
    show "nm_i = ring_adv lim m (nm_next tosync lim)"
      using Suc.prems(3) by (simp only: ring_adv_Suc2)
  qed
  show ?case
    by (subst tx_sync_loop.simps)
       (simp only: ne if_True Let_def IH map_upt_Suc_shift ring_adv_Suc2 ring_adv_0
                   append_Cons append_Nil append_assoc not_False_eq_True)
qed

lemma ucast_16_32_16: "(ucast (ucast (w :: 16 word) :: 32 word) :: 16 word) = w"
  by (rule ucast_up_ucast_id) (simp add: is_up)

lemma tx_reclaim_total:
  assumes N: "nkr_num_slots k \<noteq> 0" and tail: "nr_hwtail k \<le> nkr_num_slots k - 1"
  shows "\<exists>k2 ntc2 ev2. tx_reclaim k d ntc ev = Some (k2, ntc2, ev2)"
proof -
  let ?lim = "nkr_num_slots k - 1"
  let ?nm = "netmap_idx_n2k k (ice_netmap_read_hwtail d (nkr_num_slots k))"
  have "nm_next (nr_hwtail k) ?lim \<le> ?lim" by (rule nm_next_le[OF tail])
  moreover have "?nm \<le> ?lim" by (rule netmap_idx_n2k_le[OF N])
  ultimately obtain m where "m \<le> unat ?lim" "?nm = ring_adv ?lim m (nm_next (nr_hwtail k) ?lim)"
    using ring_reach by blast
  from tx_sync_loop_run[OF \<open>nm_next (nr_hwtail k) ?lim \<le> ?lim\<close> this]
  show ?thesis by (simp add: tx_reclaim_def Let_def)
qed

lemma tx_reclaim_exact:
  assumes N: "nkr_num_slots k \<noteq> 0"
    and ntc: "ucast ntc \<le> nkr_num_slots k - 1"
    and tail: "nr_hwtail k = nm_prev (netmap_idx_n2k k (ucast ntc)) (nkr_num_slots k - 1)"
    and kk: "kk \<le> unat (nkr_num_slots k - 1)"
    and hw: "ice_netmap_read_hwtail d (nkr_num_slots k) = ring_adv (nkr_num_slots k - 1) kk (ucast ntc)"
  shows "tx_reclaim k d ntc ev =
           Some (k\<lparr>nr_hwtail := ring_adv (nkr_num_slots k - 1) kk (nr_hwtail k)\<rparr>,
                 ucast (ice_netmap_read_hwtail d (nkr_num_slots k)),
                 ev @ map (\<lambda>j. Sync_map_cpu
                            (snd (PNMB_O k (ring_slot k (ring_adv (nkr_num_slots k - 1) (Suc j) (nr_hwtail k)))))
                            (ucast (len (ring_slot k (ring_adv (nkr_num_slots k - 1) (Suc j) (nr_hwtail k)))))
                            NR_TX)
                        [0..<kk])"
    and "ring_adv (nkr_num_slots k - 1) kk (nr_hwtail k) =
           nm_prev (netmap_idx_n2k k (ice_netmap_read_hwtail d (nkr_num_slots k))) (nkr_num_slots k - 1)"
proof -
  let ?lim = "nkr_num_slots k - 1"
  let ?hw = "ice_netmap_read_hwtail d (nkr_num_slots k)"
  let ?t0 = "netmap_idx_n2k k (ucast ntc)"
  have t0_le: "?t0 \<le> ?lim" by (rule netmap_idx_n2k_le[OF N])
  have tail_le: "nr_hwtail k \<le> ?lim" unfolding tail by (rule nm_prev_le[OF t0_le])
  have next_tail: "nm_next (nr_hwtail k) ?lim = ?t0"
    unfolding tail by (rule nm_next_prev[OF t0_le])
  have nm_i: "netmap_idx_n2k k ?hw = ring_adv ?lim kk (nm_next (nr_hwtail k) ?lim)"
    unfolding hw next_tail by (rule netmap_idx_n2k_adv[OF N ntc])
  have "nm_prev (netmap_idx_n2k k ?hw) ?lim =
          nm_prev (nm_next (ring_adv ?lim kk (nr_hwtail k)) ?lim) ?lim"
    unfolding nm_i by (simp only: ring_adv_Suc2[symmetric] ring_adv_Suc)
  also have "\<dots> = ring_adv ?lim kk (nr_hwtail k)"
    by (rule nm_prev_next[OF ring_adv_le[OF tail_le]])
  finally have new_tail: "nm_prev (netmap_idx_n2k k ?hw) ?lim = ring_adv ?lim kk (nr_hwtail k)" .
  then show "ring_adv ?lim kk (nr_hwtail k) = nm_prev (netmap_idx_n2k k ?hw) ?lim" by simp
  show "tx_reclaim k d ntc ev =
           Some (k\<lparr>nr_hwtail := ring_adv ?lim kk (nr_hwtail k)\<rparr>, ucast ?hw,
                 ev @ map (\<lambda>j. Sync_map_cpu
                            (snd (PNMB_O k (ring_slot k (ring_adv ?lim (Suc j) (nr_hwtail k)))))
                            (ucast (len (ring_slot k (ring_adv ?lim (Suc j) (nr_hwtail k)))))
                            NR_TX)
                        [0..<kk])"
  proof (cases "kk = 0")
    case True
    then have "?hw = ucast ntc" using hw by simp
    then show ?thesis using True by (simp add: tx_reclaim_def ucast_16_32_16)
  next
    case False
    then have ne: "?hw \<noteq> ucast ntc"
      using ring_adv_neq[OF ntc, of 0 kk] kk hw by simp
    note loop = tx_sync_loop_run[OF nm_next_le[OF tail_le] kk nm_i, of k ev]
    show ?thesis
      using ne by (simp add: tx_reclaim_def Let_def loop new_tail ring_adv_Suc2)
  qed
qed

lemma txsync_unfold:
  assumes "netif_carrier_ok (ifp (na (kring_of s)))" and "ring_present s txr d"
    and "tx_send (kring_of s) d (events s) = Some (k1, d1, ev1)"
    and "tx_reclaim k1 d1 (next_to_clean txr) ev1 = Some (k2, ntc2, ev2)"
  shows "ice_netmap_txsync s flgs =
           Some (Ret 0, s\<lparr>kring_of := k2,
                          hw_ring := Some (txr\<lparr>desc := Some d1, next_to_clean := ntc2\<rparr>),
                          events := ev2\<rparr>)"
  using assms by (simp add: ice_netmap_txsync_def ring_present_def)

lemma word_pred_less:
  fixes N :: "'a::len word"
  assumes "N \<noteq> 0" shows "N - 1 < N"
proof -
  have "unat (N - 1) = unat N - 1" using assms by (rule unat_minus_one)
  moreover have "0 < unat N" using assms by (simp add: unat_gt_0)
  ultimately show ?thesis by (simp add: word_less_nat_alt)
qed

lemma txsync_sent:
  assumes carrier: "netif_carrier_ok (ifp (na (kring_of s)))"
    and present: "ring_present s txr d"
    and hwcur: "nr_hwcur (kring_of s) < nkr_num_slots (kring_of s)"
    and hwtail: "nr_hwtail (kring_of s) < nkr_num_slots (kring_of s)"
    and m: "m \<le> unat (nkr_num_slots (kring_of s) - 1)"
    and head: "rhead (kring_of s) = ring_adv (nkr_num_slots (kring_of s) - 1) m (nr_hwcur (kring_of s))"
  shows "\<exists>s' txr' d' k1 ev1.
           ice_netmap_txsync s flgs = Some (Ret 0, s') \<and> ring_present s' txr' d' \<and>
           tx_send_inv (nkr_num_slots (kring_of s) - 1) (drop_bit 1 (nkr_num_slots (kring_of s))) m
             (nr_hwcur (kring_of s)) (netmap_idx_k2n (kring_of s) (nr_hwcur (kring_of s)))
             (kring_of s) d (events s) m k1 d' ev1"
proof -
  let ?k = "kring_of s"
  from tx_send_total[OF hwcur m head, of d "events s"]
  obtain k1 d1 ev1 where
    send: "tx_send ?k d (events s) = Some (k1, d1, ev1)"
    and inv: "tx_send_inv (nkr_num_slots ?k - 1) (drop_bit 1 (nkr_num_slots ?k)) m (nr_hwcur ?k)
             (netmap_idx_k2n ?k (nr_hwcur ?k)) ?k d (events s) m k1 d1 ev1"
    by blast
  from inv have same: "nkr_num_slots k1 = nkr_num_slots ?k" "nr_hwtail k1 = nr_hwtail ?k"
    by (simp_all add: tx_send_inv_def)
  have N1: "nkr_num_slots k1 \<noteq> 0" using hwcur same by auto
  have tail1: "nr_hwtail k1 \<le> nkr_num_slots k1 - 1"
    unfolding same by (rule less_imp_le_pred[OF hwtail])
  from tx_reclaim_total[OF N1 tail1, of d1 "next_to_clean txr" ev1]
  obtain k2 ntc2 ev2 where rec: "tx_reclaim k1 d1 (next_to_clean txr) ev1 = Some (k2, ntc2, ev2)"
    by blast
  note res = txsync_unfold[OF carrier present send rec, of flgs]
  have "ring_present (s\<lparr>kring_of := k2,
                          hw_ring := Some (txr\<lparr>desc := Some d1, next_to_clean := ntc2\<rparr>),
                          events := ev2\<rparr>) (txr\<lparr>desc := Some d1, next_to_clean := ntc2\<rparr>) d1"
    by (simp add: ring_present_def)
  with res inv show ?thesis by blast
qed

section \<open>The transmit reconciler: descriptors and reclaim\<close>

text \<open>
  C2: a transmit reconcile on a ring whose link is up and whose NIC ring is present sends
  the \<open>m\<close> slots from \<open>nr_hwcur\<close> to \<open>rhead\<close> and returns 0; for the \<open>j\<close>-th of
  them, when it is not flagged \<open>NS_MOREFRAG\<close>, the descriptor written at its NIC position
  has the report bit (RS) set exactly when the slot is flagged \<open>NS_REPORT\<close>, or the NIC
  position is 0, or the NIC position is half the number of slots. The instance below
  runs a full revolution of a ring of 8 slots without \<open>NS_REPORT\<close>: exactly the
  descriptors 0 and 4 carry the report bit.
\<close>

theorem txsync_report_bit:
  fixes s :: "ice_tx_desc nm_state"
  defines "N \<equiv> nkr_num_slots (kring_of s)"
  defines "slot_j j \<equiv> ring_slot (kring_of s) (ring_adv (N - 1) j (nr_hwcur (kring_of s)))"
  defines "nic_j j \<equiv> ring_adv (N - 1) j (netmap_idx_k2n (kring_of s) (nr_hwcur (kring_of s)))"
  assumes "netif_carrier_ok (ifp (na (kring_of s)))" and "ring_present s txr d"
    and "nr_hwcur (kring_of s) < N" and "nr_hwtail (kring_of s) < N"
    and "m \<le> unat (N - 1)" and "rhead (kring_of s) = ring_adv (N - 1) m (nr_hwcur (kring_of s))"
    and "j < m" and "flags (slot_j j) AND NS_MOREFRAG = 0"
  shows "\<exists>s' txr' d'.
           ice_netmap_txsync s flgs = Some (Ret 0, s') \<and> ring_present s' txr' d' \<and>
           (tx_desc_rs (d' (nic_j j)) \<longleftrightarrow>
              flags (slot_j j) AND NS_REPORT \<noteq> 0 \<or> nic_j j = 0 \<or> nic_j j = drop_bit 1 N)"
proof -
  from txsync_sent[OF assms(4,5) assms(6,7,8,9)[unfolded N_def], of flgs]
  obtain s' txr' d' k1 ev1 where
    res: "ice_netmap_txsync s flgs = Some (Ret 0, s')" "ring_present s' txr' d'"
    and inv: "tx_send_inv (N - 1) (drop_bit 1 N) m
             (nr_hwcur (kring_of s)) (netmap_idx_k2n (kring_of s) (nr_hwcur (kring_of s)))
             (kring_of s) d (events s) m k1 d' ev1"
    unfolding N_def by blast
  from inv \<open>j < m\<close> \<open>flags (slot_j j) AND NS_MOREFRAG = 0\<close>
  have "tx_desc_rs (d' (nic_j j)) \<longleftrightarrow>
              flags (slot_j j) AND NS_REPORT \<noteq> 0 \<or> nic_j j = 0 \<or> nic_j j = drop_bit 1 N"
    unfolding tx_send_inv_def slot_j_def nic_j_def by simp
  with res show ?thesis by blast
qed

text \<open>
  C9: the descriptor written for a slot flagged \<open>NS_MOREFRAG\<close> has neither the report
  bit (RS) nor the end-of-packet bit (EOP), whatever its \<open>NS_REPORT\<close> flag and its NIC
  position.
\<close>

theorem txsync_morefrag_no_report:
  fixes s :: "ice_tx_desc nm_state"
  defines "N \<equiv> nkr_num_slots (kring_of s)"
  defines "slot_j j \<equiv> ring_slot (kring_of s) (ring_adv (N - 1) j (nr_hwcur (kring_of s)))"
  defines "nic_j j \<equiv> ring_adv (N - 1) j (netmap_idx_k2n (kring_of s) (nr_hwcur (kring_of s)))"
  assumes "netif_carrier_ok (ifp (na (kring_of s)))" and "ring_present s txr d"
    and "nr_hwcur (kring_of s) < N" and "nr_hwtail (kring_of s) < N"
    and "m \<le> unat (N - 1)" and "rhead (kring_of s) = ring_adv (N - 1) m (nr_hwcur (kring_of s))"
    and "j < m" and "flags (slot_j j) AND NS_MOREFRAG \<noteq> 0"
  shows "\<exists>s' txr' d'.
           ice_netmap_txsync s flgs = Some (Ret 0, s') \<and> ring_present s' txr' d' \<and>
           \<not> tx_desc_rs (d' (nic_j j)) \<and> \<not> tx_desc_eop (d' (nic_j j))"
proof -
  from txsync_sent[OF assms(4,5) assms(6,7,8,9)[unfolded N_def], of flgs]
  obtain s' txr' d' k1 ev1 where
    res: "ice_netmap_txsync s flgs = Some (Ret 0, s')" "ring_present s' txr' d'"
    and inv: "tx_send_inv (N - 1) (drop_bit 1 N) m
             (nr_hwcur (kring_of s)) (netmap_idx_k2n (kring_of s) (nr_hwcur (kring_of s)))
             (kring_of s) d (events s) m k1 d' ev1"
    unfolding N_def by blast
  from inv \<open>j < m\<close> \<open>flags (slot_j j) AND NS_MOREFRAG \<noteq> 0\<close>
  have "\<not> tx_desc_rs (d' (nic_j j)) \<and> \<not> tx_desc_eop (d' (nic_j j))"
    unfolding tx_send_inv_def slot_j_def nic_j_def by simp
  with res show ?thesis by blast
qed

lemma ex_tx_present:
  "ring_present (set_rhead 4 ex_tx) ex_txr (\<lambda>i. \<lparr>buf_addr = 0, cmd_type_offset_bsz = 0\<rparr>)"
  by (simp add: ring_present_def set_rhead_def ex_tx_def ex_txr_def)

lemma ex_tx_frag_present:
  "ring_present ex_tx_frag ex_txr (\<lambda>i. \<lparr>buf_addr = 0, cmd_type_offset_bsz = 0\<rparr>)"
  by (simp add: ring_present_def ex_tx_frag_def ex_tx_def ex_txr_def)

theorem txsync_report_bit_witness:
  "(\<exists>s' txr' d'.
      ice_netmap_txsync (set_rhead 4 ex_tx) 0 = Some (Ret 0, s') \<and> ring_present s' txr' d' \<and>
      tx_desc_rs (d' 0) \<and> \<not> tx_desc_rs (d' 1)) \<and>
   (case ice_netmap_txsync (set_rhead 4 ex_tx) 0 of
      None \<Rightarrow> False
    | Some (r1, s1) \<Rightarrow>
       (case ice_netmap_txsync (set_rhead 0 s1) 0 of
          None \<Rightarrow> False
        | Some (r2, s2) \<Rightarrow>
            r1 = Ret 0 \<and> r2 = Ret 0 \<and> nr_hwcur (kring_of s2) = 0 \<and>
            filter (\<lambda>i. tx_desc_rs (the_desc s2 i)) [0, 1, 2, 3, 4, 5, 6, 7] = [0, 4] \<and>
            filter (\<lambda>i. tx_desc_eop (the_desc s2 i)) [0, 1, 2, 3, 4, 5, 6, 7] =
              [0, 1, 2, 3, 4, 5, 6, 7]))"
proof -
  let ?s = "set_rhead 4 ex_tx"
  have carrier: "netif_carrier_ok (ifp (na (kring_of ?s)))" by code_simp
  have hwcur: "nr_hwcur (kring_of ?s) < nkr_num_slots (kring_of ?s)" by code_simp
  have hwtail: "nr_hwtail (kring_of ?s) < nkr_num_slots (kring_of ?s)" by code_simp
  have m: "4 \<le> unat (nkr_num_slots (kring_of ?s) - 1)" by code_simp
  have head: "rhead (kring_of ?s) =
        ring_adv (nkr_num_slots (kring_of ?s) - 1) 4 (nr_hwcur (kring_of ?s))" by code_simp
  have frag0: "flags (ring_slot (kring_of ?s)
          (ring_adv (nkr_num_slots (kring_of ?s) - 1) 0 (nr_hwcur (kring_of ?s)))) AND NS_MOREFRAG = 0"
    by code_simp
  have frag1: "flags (ring_slot (kring_of ?s)
          (ring_adv (nkr_num_slots (kring_of ?s) - 1) 1 (nr_hwcur (kring_of ?s)))) AND NS_MOREFRAG = 0"
    by code_simp
  have nic0: "ring_adv (nkr_num_slots (kring_of ?s) - 1) 0
          (netmap_idx_k2n (kring_of ?s) (nr_hwcur (kring_of ?s))) = 0"
    by code_simp
  have nic1: "ring_adv (nkr_num_slots (kring_of ?s) - 1) 1
          (netmap_idx_k2n (kring_of ?s) (nr_hwcur (kring_of ?s))) = 1"
    by code_simp
  have rep1: "flags (ring_slot (kring_of ?s)
          (ring_adv (nkr_num_slots (kring_of ?s) - 1) 1 (nr_hwcur (kring_of ?s)))) AND NS_REPORT = 0"
    by code_simp
  have rf: "drop_bit 1 (nkr_num_slots (kring_of ?s)) = (4 :: 32 word)" by code_simp
  have j0: "(0::nat) < 4" and j1: "(1::nat) < 4" by simp_all
  from txsync_report_bit[OF carrier ex_tx_present hwcur hwtail m head j0 frag0, of 0]
  obtain s' txr' d' where
    r0: "ice_netmap_txsync ?s 0 = Some (Ret 0, s')" "ring_present s' txr' d'" "tx_desc_rs (d' 0)"
    unfolding nic0 by auto
  from txsync_report_bit[OF carrier ex_tx_present hwcur hwtail m head j1 frag1, of 0]
  obtain s'' txr'' d'' where
    r1: "ice_netmap_txsync ?s 0 = Some (Ret 0, s'')" "ring_present s'' txr'' d''"
        "\<not> tx_desc_rs (d'' 1)"
    unfolding nic1 rep1 rf by auto
  from r0 r1 have "s'' = s'" by simp
  with r0 r1 have "txr'' = txr'" "d'' = d'" by (simp_all add: ring_present_def)
  with r0 r1 have A: "\<exists>s' txr' d'.
      ice_netmap_txsync ?s 0 = Some (Ret 0, s') \<and> ring_present s' txr' d' \<and>
      tx_desc_rs (d' 0) \<and> \<not> tx_desc_rs (d' 1)"
    by blast
  have B: "case ice_netmap_txsync ?s 0 of
      None \<Rightarrow> False
    | Some (r1, s1) \<Rightarrow>
       (case ice_netmap_txsync (set_rhead 0 s1) 0 of
          None \<Rightarrow> False
        | Some (r2, s2) \<Rightarrow>
            r1 = Ret 0 \<and> r2 = Ret 0 \<and> nr_hwcur (kring_of s2) = 0 \<and>
            filter (\<lambda>i. tx_desc_rs (the_desc s2 i)) [0, 1, 2, 3, 4, 5, 6, 7] = [0, 4] \<and>
            filter (\<lambda>i. tx_desc_eop (the_desc s2 i)) [0, 1, 2, 3, 4, 5, 6, 7] =
              [0, 1, 2, 3, 4, 5, 6, 7])"
    by code_simp
  from A B show ?thesis by (rule conjI)
qed

theorem txsync_morefrag_no_report_witness:
  "flags (ring_slot (kring_of ex_tx_frag) 0) AND NS_MOREFRAG \<noteq> 0 \<and>
   flags (ring_slot (kring_of ex_tx_frag) 0) AND NS_REPORT \<noteq> 0 \<and>
   (\<exists>s' txr' d'.
      ice_netmap_txsync ex_tx_frag 0 = Some (Ret 0, s') \<and> ring_present s' txr' d' \<and>
      \<not> tx_desc_rs (d' 0) \<and> \<not> tx_desc_eop (d' 0))"
proof -
  let ?s = "ex_tx_frag"
  have carrier: "netif_carrier_ok (ifp (na (kring_of ?s)))" by code_simp
  have hwcur: "nr_hwcur (kring_of ?s) < nkr_num_slots (kring_of ?s)" by code_simp
  have hwtail: "nr_hwtail (kring_of ?s) < nkr_num_slots (kring_of ?s)" by code_simp
  have m: "2 \<le> unat (nkr_num_slots (kring_of ?s) - 1)" by code_simp
  have head: "rhead (kring_of ?s) =
        ring_adv (nkr_num_slots (kring_of ?s) - 1) 2 (nr_hwcur (kring_of ?s))" by code_simp
  have frag0: "flags (ring_slot (kring_of ?s)
          (ring_adv (nkr_num_slots (kring_of ?s) - 1) 0 (nr_hwcur (kring_of ?s)))) AND NS_MOREFRAG \<noteq> 0"
    by code_simp
  have nic0: "ring_adv (nkr_num_slots (kring_of ?s) - 1) 0
          (netmap_idx_k2n (kring_of ?s) (nr_hwcur (kring_of ?s))) = 0"
    by code_simp
  have fl: "flags (ring_slot (kring_of ex_tx_frag) 0) AND NS_MOREFRAG \<noteq> 0"
    "flags (ring_slot (kring_of ex_tx_frag) 0) AND NS_REPORT \<noteq> 0" by code_simp+
  have j0: "(0::nat) < 2" by simp
  from txsync_morefrag_no_report[OF carrier ex_tx_frag_present hwcur hwtail m head j0 frag0, of 0]
  have "\<exists>s' txr' d'.
      ice_netmap_txsync ex_tx_frag 0 = Some (Ret 0, s') \<and> ring_present s' txr' d' \<and>
      \<not> tx_desc_rs (d' 0) \<and> \<not> tx_desc_eop (d' 0)"
    unfolding nic0 .
  with fl show ?thesis by blast
qed

lemma netmap_idx_n2k_cong:
  "nkr_hwofs k1 = nkr_hwofs k \<Longrightarrow> nkr_num_slots k1 = nkr_num_slots k \<Longrightarrow>
   netmap_idx_n2k k1 i = netmap_idx_n2k k i"
  by (simp add: netmap_idx_n2k_def)

text \<open>
  C4: on a ring in the state every reclaim leaves it in (\<open>nr_hwtail\<close> one position behind
  the translation of the recorded \<open>next_to_clean\<close>), if the position read from the
  sentinel after the last descriptor is \<open>kk\<close> steps after \<open>next_to_clean\<close>, the
  reconcile returns 0, \<open>nr_hwtail\<close> advances by exactly \<open>kk\<close> steps and ends one position
  behind the translation of the position read, \<open>next_to_clean\<close> records that position,
  and exactly \<open>kk\<close> buffers are synchronised for the CPU: those of the \<open>kk\<close> slots after
  the old tail, in order.
\<close>

theorem txsync_reclaim_exact:
  fixes s :: "ice_tx_desc nm_state"
  defines "N \<equiv> nkr_num_slots (kring_of s)"
  assumes carrier: "netif_carrier_ok (ifp (na (kring_of s)))" and present: "ring_present s txr d"
    and hwcur: "nr_hwcur (kring_of s) < N" and rhead: "rhead (kring_of s) < N"
    and ntc: "ucast (next_to_clean txr) < N"
    and tail: "nr_hwtail (kring_of s) =
                 nm_prev (netmap_idx_n2k (kring_of s) (ucast (next_to_clean txr))) (N - 1)"
    and kk: "kk \<le> unat (N - 1)"
    and hw: "ice_netmap_read_hwtail d N = ring_adv (N - 1) kk (ucast (next_to_clean txr))"
  shows "\<exists>s' txr' d'.
           ice_netmap_txsync s flgs = Some (Ret 0, s') \<and> ring_present s' txr' d' \<and>
           nr_hwtail (kring_of s') = ring_adv (N - 1) kk (nr_hwtail (kring_of s)) \<and>
           nr_hwtail (kring_of s') =
             nm_prev (netmap_idx_n2k (kring_of s) (ice_netmap_read_hwtail d N)) (N - 1) \<and>
           next_to_clean txr' = ucast (ice_netmap_read_hwtail d N) \<and>
           filter is_sync_cpu (events s') =
             filter is_sync_cpu (events s) @
             map (\<lambda>j. Sync_map_cpu
                        (snd (PNMB_O (kring_of s')
                                (ring_slot (kring_of s')
                                   (ring_adv (N - 1) (Suc j) (nr_hwtail (kring_of s))))))
                        (ucast (len (ring_slot (kring_of s')
                                   (ring_adv (N - 1) (Suc j) (nr_hwtail (kring_of s))))))
                        NR_TX)
                 [0..<kk] \<and>
           length (filter is_sync_cpu (events s')) = length (filter is_sync_cpu (events s)) + kk"
proof -
  let ?k = "kring_of s"
  let ?lim = "N - 1"
  have N0: "N \<noteq> 0" using hwcur by auto
  have cur_le: "nr_hwcur ?k \<le> nkr_num_slots ?k - 1"
    using hwcur unfolding N_def by (rule less_imp_le_pred)
  have head_le: "rhead ?k \<le> nkr_num_slots ?k - 1"
    using rhead unfolding N_def by (rule less_imp_le_pred)
  from ring_reach[OF cur_le head_le]
  obtain m where m: "m \<le> unat (nkr_num_slots ?k - 1)"
    and head: "rhead ?k = ring_adv (nkr_num_slots ?k - 1) m (nr_hwcur ?k)"
    by blast
  from tx_send_total[OF hwcur[unfolded N_def] m head, of d "events s"]
  obtain k1 d1 ev1 where
    send: "tx_send ?k d (events s) = Some (k1, d1, ev1)"
    and inv: "tx_send_inv (nkr_num_slots ?k - 1) (drop_bit 1 (nkr_num_slots ?k)) m (nr_hwcur ?k)
             (netmap_idx_k2n ?k (nr_hwcur ?k)) ?k d (events s) m k1 d1 ev1"
    by blast
  from inv have same: "nkr_num_slots k1 = N" "nr_hwtail k1 = nr_hwtail ?k"
      "nkr_hwofs k1 = nkr_hwofs ?k"
    and above: "\<And>x. N - 1 < x \<Longrightarrow> d1 x = d x"
    and evs: "filter is_sync_cpu ev1 = filter is_sync_cpu (events s)"
    by (simp_all add: tx_send_inv_def N_def)
  have n2k: "netmap_idx_n2k k1 i = netmap_idx_n2k ?k i" for i
    using same by (intro netmap_idx_n2k_cong) (simp_all add: N_def)
  have "d1 N = d N" by (rule above[OF word_pred_less[OF N0]])
  then have hw1: "ice_netmap_read_hwtail d1 N = ice_netmap_read_hwtail d N"
    by (simp add: ice_netmap_read_hwtail_def)
  have N1: "nkr_num_slots k1 \<noteq> 0" using N0 same by simp
  have ntc1: "ucast (next_to_clean txr) \<le> nkr_num_slots k1 - 1"
    unfolding same by (rule less_imp_le_pred[OF ntc])
  have tail1: "nr_hwtail k1 =
      nm_prev (netmap_idx_n2k k1 (ucast (next_to_clean txr))) (nkr_num_slots k1 - 1)"
    unfolding same n2k by (rule tail)
  have kk1: "kk \<le> unat (nkr_num_slots k1 - 1)" unfolding same by (rule kk)
  have hw1': "ice_netmap_read_hwtail d1 (nkr_num_slots k1) =
      ring_adv (nkr_num_slots k1 - 1) kk (ucast (next_to_clean txr))"
    unfolding same hw1 by (rule hw)
  note rec1 = tx_reclaim_exact(1)[OF N1 ntc1 tail1 kk1 hw1', of ev1, unfolded same hw1 n2k]
  note rec2 = tx_reclaim_exact(2)[OF N1 ntc1 tail1 kk1 hw1', unfolded same hw1 n2k]
  let ?k2 = "k1\<lparr>nr_hwtail := ring_adv ?lim kk (nr_hwtail ?k)\<rparr>"
  let ?ev2 = "ev1 @ map (\<lambda>j. Sync_map_cpu
                 (snd (PNMB_O k1 (ring_slot k1 (ring_adv ?lim (Suc j) (nr_hwtail ?k)))))
                 (ucast (len (ring_slot k1 (ring_adv ?lim (Suc j) (nr_hwtail ?k))))) NR_TX)
               [0..<kk]"
  let ?txr' = "txr\<lparr>desc := Some d1, next_to_clean := ucast (ice_netmap_read_hwtail d N)\<rparr>"
  let ?s' = "s\<lparr>kring_of := ?k2, hw_ring := Some ?txr', events := ?ev2\<rparr>"
  have res: "ice_netmap_txsync s flgs = Some (Ret 0, ?s')"
    by (rule txsync_unfold[OF carrier present send rec1])
  have p: "ring_present ?s' ?txr' d1" by (simp add: ring_present_def)
  have t1: "nr_hwtail (kring_of ?s') = ring_adv ?lim kk (nr_hwtail ?k)" by simp
  have t2: "nr_hwtail (kring_of ?s') =
             nm_prev (netmap_idx_n2k ?k (ice_netmap_read_hwtail d N)) ?lim"
    using rec2 by simp
  have c: "next_to_clean ?txr' = ucast (ice_netmap_read_hwtail d N)" by simp
  have f: "filter is_sync_cpu (events ?s') =
             filter is_sync_cpu (events s) @
             map (\<lambda>j. Sync_map_cpu
                        (snd (PNMB_O (kring_of ?s')
                                (ring_slot (kring_of ?s')
                                   (ring_adv ?lim (Suc j) (nr_hwtail ?k)))))
                        (ucast (len (ring_slot (kring_of ?s')
                                   (ring_adv ?lim (Suc j) (nr_hwtail ?k)))))
                        NR_TX)
                 [0..<kk]"
    by (simp add: evs filter_map o_def)
  have l: "length (filter is_sync_cpu (events ?s')) = length (filter is_sync_cpu (events s)) + kk"
    unfolding f by simp
  from res p t1 t2 c f l show ?thesis by blast
qed

lemma ex_tx_done_present:
  "ring_present ex_tx_done ex_txr_done
     ((\<lambda>i. \<lparr>buf_addr = 0, cmd_type_offset_bsz = 0\<rparr>)(8 := \<lparr>buf_addr = 3, cmd_type_offset_bsz = 0\<rparr>))"
  by (simp add: ring_present_def ex_tx_done_def set_rhead_def ex_txr_done_def)

theorem txsync_reclaim_exact_witness:
  "nr_hwtail (kring_of ex_tx_done) = 7 \<and> next_to_clean ex_txr_done = 0 \<and>
   ice_netmap_read_hwtail (the_desc ex_tx_done) 8 = 3 \<and>
   (\<exists>s' txr' d'.
      ice_netmap_txsync ex_tx_done 0 = Some (Ret 0, s') \<and> ring_present s' txr' d' \<and>
      nr_hwtail (kring_of s') = 2 \<and> next_to_clean txr' = 3 \<and>
      length (filter is_sync_cpu (events s')) = 3)"
proof -
  let ?s = "ex_tx_done"
  let ?d = "(\<lambda>i. \<lparr>buf_addr = 0, cmd_type_offset_bsz = 0\<rparr>)(8 := \<lparr>buf_addr = 3, cmd_type_offset_bsz = 0\<rparr>)"
  have carrier: "netif_carrier_ok (ifp (na (kring_of ?s)))" by code_simp
  have hwcur: "nr_hwcur (kring_of ?s) < nkr_num_slots (kring_of ?s)" by code_simp
  have rhead: "rhead (kring_of ?s) < nkr_num_slots (kring_of ?s)" by code_simp
  have ntc: "ucast (next_to_clean ex_txr_done) < nkr_num_slots (kring_of ?s)" by code_simp
  have tail: "nr_hwtail (kring_of ?s) =
      nm_prev (netmap_idx_n2k (kring_of ?s) (ucast (next_to_clean ex_txr_done)))
        (nkr_num_slots (kring_of ?s) - 1)" by code_simp
  have kk: "3 \<le> unat (nkr_num_slots (kring_of ?s) - 1)" by code_simp
  have hw: "ice_netmap_read_hwtail ?d (nkr_num_slots (kring_of ?s)) =
      ring_adv (nkr_num_slots (kring_of ?s) - 1) 3 (ucast (next_to_clean ex_txr_done))"
    by code_simp
  have new_tail: "ring_adv (nkr_num_slots (kring_of ?s) - 1) 3 (nr_hwtail (kring_of ?s)) = 2"
    by code_simp
  have new_ntc: "(ucast (ice_netmap_read_hwtail ?d (nkr_num_slots (kring_of ?s))) :: 16 word) = 3"
    by code_simp
  have old_evs: "length (filter is_sync_cpu (events ?s)) = 0" by code_simp
  have pre: "nr_hwtail (kring_of ex_tx_done) = 7" "next_to_clean ex_txr_done = 0"
    "ice_netmap_read_hwtail (the_desc ex_tx_done) 8 = 3" by code_simp+
  from txsync_reclaim_exact[OF carrier ex_tx_done_present hwcur rhead ntc tail kk hw, of 0]
  obtain s' txr' d' where
    "ice_netmap_txsync ?s 0 = Some (Ret 0, s')" "ring_present s' txr' d'"
    "nr_hwtail (kring_of s') = ring_adv (nkr_num_slots (kring_of ?s) - 1) 3 (nr_hwtail (kring_of ?s))"
    "next_to_clean txr' = ucast (ice_netmap_read_hwtail ?d (nkr_num_slots (kring_of ?s)))"
    "length (filter is_sync_cpu (events s')) = length (filter is_sync_cpu (events ?s)) + 3"
    by blast
  then have "\<exists>s' txr' d'.
      ice_netmap_txsync ex_tx_done 0 = Some (Ret 0, s') \<and> ring_present s' txr' d' \<and>
      nr_hwtail (kring_of s') = 2 \<and> next_to_clean txr' = 3 \<and>
      length (filter is_sync_cpu (events s')) = 3"
    unfolding new_tail new_ntc old_evs by auto
  with pre show ?thesis by blast
qed

end
